theory Spec2Isabelle
  imports Complex_Main "HOL-Library.AList" "HOL-Library.Char_ord" "HOL-Library.List_Lexorder"
begin

section \<open>Data model\<close>

text \<open>
  The embedding follows \<^verbatim>\<open>text_utils.py\<close>. A Python \<^verbatim>\<open>dict\<close> is an association
  list in insertion order whose keys are distinct: \<open>d[k] = v\<close> is \<open>AList.update k v d\<close>
  (an existing key keeps its place, a new key goes to the end), \<open>k in d\<close> is
  \<open>map_of d k \<noteq> None\<close>, and iterating a dict walks the list. A string is a list of
  code points below 256, compared by code point as Python compares \<^verbatim>\<open>str\<close>. Exceptions are values of
  \<open>error\<close>; a function that can raise returns \<open>error + 'a\<close>.
\<close>

datatype error = KeyError | ValueError | ZeroDivisionError | FileNotFoundError

datatype json = JStr string | JObj "(string \<times> json) list"

type_synonym 'v dict = "(string \<times> 'v) list"

type_synonym path = "string list"

text \<open>
  The file system holds JSON object files, addressed by their path components; the order
  of the list is the order in which \<^verbatim>\<open>iterdir\<close> reports the entries. Directories are
  not files of the model: \<^verbatim>\<open>mkdir\<close> has no effect on it, and a directory with no files
  lists as empty.
\<close>

type_synonym fs = "(path \<times> json dict) list"

type_synonym sourcemap = "(string dict) dict"

type_synonym raw_lang = "((json dict) dict) dict"

type_synonym raw_sourcemap = "(string dict) dict"

definition PWD :: path where
  "PWD = [''.'']"

definition CHAPTERS :: "string list" where
  "CHAPTERS = [''1'', ''2'', ''3'', ''4'']"

definition LANGS :: "string list" where
  "LANGS = [''en'', ''ja'']"

definition BASE_LANG :: string where
  "BASE_LANG = ''en''"


definition L10N_CHAPTER :: string where
  "L10N_CHAPTER = ''1''"

definition keys :: "'v dict \<Rightarrow> string set" where
  "keys d = fst ` set d"

text \<open>\<^verbatim>\<open>d |= other\<close> and \<^verbatim>\<open>dict(pairs)\<close>: the items are stored one by one, in order.\<close>

definition dict_merge :: "'v dict \<Rightarrow> 'v dict \<Rightarrow> 'v dict" where
  "dict_merge d other = fold (\<lambda>(k, v). AList.update k v) other d"

definition dict_of :: "(string \<times> 'v) list \<Rightarrow> 'v dict" where
  "dict_of pairs = dict_merge [] pairs"

fun foldM :: "('a \<Rightarrow> 's \<Rightarrow> error + 's) \<Rightarrow> 'a list \<Rightarrow> 's \<Rightarrow> error + 's" where
  "foldM f [] s = Inr s"
| "foldM f (x # xs) s = (case f x s of Inl e \<Rightarrow> Inl e | Inr s' \<Rightarrow> foldM f xs s')"

subsection \<open>Storage adapter\<close>

definition dict2file :: "json dict \<Rightarrow> path \<Rightarrow> fs \<Rightarrow> fs" where
  "dict2file in_dict out_file fs = AList.update out_file in_dict fs"

definition file2dict :: "path \<Rightarrow> fs \<Rightarrow> error + json dict" where
  "file2dict in_file fs =
     (case map_of fs in_file of None \<Rightarrow> Inl FileNotFoundError | Some d \<Rightarrow> Inr d)"

definition exists :: "path \<Rightarrow> fs \<Rightarrow> bool" where
  "exists file fs \<longleftrightarrow> map_of fs file \<noteq> None"


definition rmfile :: "path \<Rightarrow> fs \<Rightarrow> fs" where
  "rmfile file fs = (if exists file fs then AList.delete file fs else fs)"

definition iterdir :: "path \<Rightarrow> fs \<Rightarrow> string list" where
  "iterdir dir fs = map last (filter (\<lambda>p. p \<noteq> [] \<and> butlast p = dir) (map fst fs))"

subsection \<open>Strings\<close>

text \<open>\<^verbatim>\<open>s.split(sep)\<close> for a one-character separator: every occurrence cuts.\<close>

fun split_str :: "char \<Rightarrow> string \<Rightarrow> string list" where
  "split_str sep [] = [[]]"
| "split_str sep (c # cs) =
     (if c = sep then [] # split_str sep cs
      else (case split_str sep cs of [] \<Rightarrow> [[c]] | p # ps \<Rightarrow> (c # p) # ps))"

text \<open>
  \<^verbatim>\<open>s.isdigit()\<close>: of the code points below 256, the digits \<^verbatim>\<open>0\<close> to \<^verbatim>\<open>9\<close> and the
  superscript digits U+00B2, U+00B3 and U+00B9 pass the test.
\<close>

definition isdigit :: "string \<Rightarrow> bool" where
  "isdigit s \<longleftrightarrow>
     s \<noteq> [] \<and>
     (\<forall>c \<in> set s. (CHR ''0'' \<le> c \<and> c \<le> CHR ''9'') \<or> c = CHR 0xB2 \<or> c = CHR 0xB3 \<or> c = CHR 0xB9)"

definition rjust :: "nat \<Rightarrow> char \<Rightarrow> string \<Rightarrow> string" where
  "rjust width fillchar s = replicate (width - length s) fillchar @ s"

definition removesuffix :: "string \<Rightarrow> string \<Rightarrow> string" where
  "removesuffix s suf =
     (if suf \<noteq> [] \<and> length suf \<le> length s \<and> drop (length s - length suf) s = suf
      then take (length s - length suf) s else s)"

definition digit_char :: "nat \<Rightarrow> char" where
  "digit_char d = ''0123456789'' ! d"

text \<open>\<^verbatim>\<open>str(n)\<close> for a non-negative integer: its decimal digits.\<close>

fun str_nat :: "nat \<Rightarrow> string" where
  "str_nat n = (if n < 10 then [digit_char n] else str_nat (n div 10) @ [digit_char (n mod 10)])"

declare str_nat.simps [simp del]

subsection \<open>Natural sort key\<close>

definition smartsort :: "string \<times> 'v \<Rightarrow> string list" where
  "smartsort k_and_v =
     map (\<lambda>piece. if isdigit piece then rjust 16 (CHR ''0'') piece else piece)
       (split_str (CHR ''_'') (fst k_and_v))"

subsection \<open>Splitter\<close>

text \<open>Lines 71 to 75: how often each location occurs in the chapter.\<close>

fun count_dups :: "string list \<Rightarrow> (string \<rightharpoonup> nat) \<Rightarrow> (string \<rightharpoonup> nat)" where
  "count_dups [] ch_dup_map = ch_dup_map"
| "count_dups (fileno # rest) ch_dup_map =
     count_dups rest
       (case ch_dup_map fileno of
          None \<Rightarrow> ch_dup_map(fileno \<mapsto> 1)
        | Some c \<Rightarrow> ch_dup_map(fileno \<mapsto> c + 1))"

text \<open>
  Lines 83 and 90 to 94, for one entry with location \<open>v\<close>: the new value of
  \<^verbatim>\<open>dupecount\<close>, the file name and the line token. Unpacking \<^verbatim>\<open>v.split(":")\<close> into two
  names raises \<^verbatim>\<open>ValueError\<close> unless there are exactly two pieces.
\<close>

definition locate :: "(string \<rightharpoonup> nat) \<Rightarrow> nat \<Rightarrow> string \<Rightarrow> error + (nat \<times> string \<times> string)" where
  "locate ch_dup_map dupecount v =
     (case split_str (CHR '':'') v of
        [filename, lineno] \<Rightarrow>
          (case ch_dup_map v of
             None \<Rightarrow> Inl KeyError
           | Some c \<Rightarrow>
               if c > 1
               then Inr (dupecount + 1, filename, lineno @ ''_'' @ str_nat (dupecount + 1))
               else Inr (0, filename, lineno))
      | _ \<Rightarrow> Inl ValueError)"

text \<open>
  Lines 84 to 87 and 95: \<^verbatim>\<open>ch_sourcemap[filename][lineno] = k\<close>, after the file's entry
  was created if it was missing.
\<close>

definition store :: "string \<Rightarrow> string \<Rightarrow> string \<Rightarrow> sourcemap \<Rightarrow> sourcemap" where
  "store filename lineno k ch_sourcemap =
     AList.map_entry filename (AList.update lineno k)
       (if map_of ch_sourcemap filename = None
        then AList.update filename [] ch_sourcemap else ch_sourcemap)"

text \<open>Lines 82 to 95: the loop that rebuilds the chapter source map.\<close>

fun rebuild :: "(string \<rightharpoonup> nat) \<Rightarrow> string dict \<Rightarrow> nat \<times> sourcemap \<Rightarrow> error + (nat \<times> sourcemap)" where
  "rebuild ch_dup_map [] st = Inr st"
| "rebuild ch_dup_map ((k, v) # rest) (dupecount, ch_sourcemap) =
     (case locate ch_dup_map dupecount v of
        Inl e \<Rightarrow> Inl e
      | Inr (dupecount', filename, lineno) \<Rightarrow>
          rebuild ch_dup_map rest (dupecount', store filename lineno k ch_sourcemap))"

text \<open>
  What the same loop computes for each entry in turn, as a list: the value of
  \<^verbatim>\<open>dupecount\<close> after the entry, the file name, the line token and the key stored.
\<close>

fun positions :: "(string \<rightharpoonup> nat) \<Rightarrow> string dict \<Rightarrow> nat \<Rightarrow> error + (nat \<times> string \<times> string \<times> string) list" where
  "positions ch_dup_map [] dupecount = Inr []"
| "positions ch_dup_map ((k, v) # rest) dupecount =
     (case locate ch_dup_map dupecount v of
        Inl e \<Rightarrow> Inl e
      | Inr (dupecount', filename, lineno) \<Rightarrow>
          (case positions ch_dup_map rest dupecount' of
             Inl e \<Rightarrow> Inl e
           | Inr ps \<Rightarrow> Inr ((dupecount', filename, lineno, k) # ps)))"

text \<open>Lines 96 and 97: each file's entries sorted (stably) by the natural sort key.\<close>

definition sort_sourcemap :: "sourcemap \<Rightarrow> sourcemap" where
  "sort_sourcemap ch_sourcemap =
     map (\<lambda>(filename, m). (filename, dict_of (sort_key smartsort m))) ch_sourcemap"

definition build_sourcemap :: "string dict \<Rightarrow> error + sourcemap" where
  "build_sourcemap entries =
     (case rebuild (count_dups (map snd entries) Map.empty) entries (0, []) of
        Inl e \<Rightarrow> Inl e
      | Inr (dupecount, ch_sourcemap) \<Rightarrow> Inr (sort_sourcemap ch_sourcemap))"

definition sourcemap_json :: "sourcemap \<Rightarrow> json dict" where
  "sourcemap_json ch_sourcemap =
     map (\<lambda>(filename, m). (filename, JObj (map (\<lambda>(lineno, k). (lineno, JStr k)) m))) ch_sourcemap"

text \<open>\<^verbatim>\<open>raw_lang[chapter][lang][v]\<close>; \<open>None\<close> is the \<^verbatim>\<open>KeyError\<close> of any of the three lookups.\<close>

definition lookup_string :: "raw_lang \<Rightarrow> string \<Rightarrow> string \<Rightarrow> string \<Rightarrow> json option" where
  "lookup_string raw_lang chapter lang v =
     (case map_of raw_lang chapter of
        None \<Rightarrow> None
      | Some langs \<Rightarrow> (case map_of langs lang of None \<Rightarrow> None | Some strs \<Rightarrow> map_of strs v))"

text \<open>Lines 109 to 115: the strings of one file; the state is \<^verbatim>\<open>(lang_strings, obj_strings)\<close>.\<close>

fun collect :: "(string \<Rightarrow> json option) \<Rightarrow> string dict \<Rightarrow> json dict \<times> json dict \<Rightarrow> json dict \<times> json dict" where
  "collect look [] st = st"
| "collect look ((k, v) # rest) (lang_strings, obj_strings) =
     (case look v of
        None \<Rightarrow> collect look rest (lang_strings, obj_strings)
      | Some str_value \<Rightarrow>
          collect look rest
            (AList.update v str_value lang_strings, AList.update v str_value obj_strings))"

definition obj_name :: "string \<Rightarrow> string" where
  "obj_name filename = removesuffix filename ''.gml'' @ ''.json''"

text \<open>Lines 116 to 119: an empty object removes its file, any other is written.\<close>

definition put_object :: "path \<Rightarrow> string \<times> json dict \<Rightarrow> fs \<Rightarrow> fs" where
  "put_object obj_dir named fs =
     (case named of (name, obj_strings) \<Rightarrow>
        if obj_strings = [] then rmfile (obj_dir @ [name]) fs
        else dict2file obj_strings (obj_dir @ [name]) fs)"

text \<open>Lines 106 to 119: one object per file of the chapter source map.\<close>

fun split_files :: "(string \<Rightarrow> json option) \<Rightarrow> path \<Rightarrow> sourcemap \<Rightarrow> json dict \<times> fs \<Rightarrow> json dict \<times> fs" where
  "split_files look obj_dir [] st = st"
| "split_files look obj_dir ((filename, m) # rest) (lang_strings, fs) =
     (let (lang_strings', obj_strings) = collect look m (lang_strings, [])
      in split_files look obj_dir rest
           (lang_strings', put_object obj_dir (obj_name filename, obj_strings) fs))"

text \<open>
  What the same loop computes, file by file: the objects it hands to the storage adapter,
  each with its file name, and the value of \<^verbatim>\<open>lang_strings\<close> when the loop ends.
\<close>

fun objects :: "(string \<Rightarrow> json option) \<Rightarrow> sourcemap \<Rightarrow> json dict \<Rightarrow> (string \<times> json dict) list" where
  "objects look [] lang_strings = []"
| "objects look ((filename, m) # rest) lang_strings =
     (let (lang_strings', obj_strings) = collect look m (lang_strings, [])
      in (obj_name filename, obj_strings) # objects look rest lang_strings')"

fun strings_used :: "(string \<Rightarrow> json option) \<Rightarrow> sourcemap \<Rightarrow> json dict \<Rightarrow> json dict" where
  "strings_used look [] lang_strings = lang_strings"
| "strings_used look ((filename, m) # rest) lang_strings =
     strings_used look rest (fst (collect look m (lang_strings, [])))"

text \<open>
  Lines 124 to 131: the orphan object. The loop walks the keys of
  \<^verbatim>\<open>raw_lang[chapter][lang]\<close> and reads each key's own value; the warning it prints
  changes nothing.
\<close>

fun orphans :: "json dict \<Rightarrow> json dict \<Rightarrow> json dict \<Rightarrow> json dict" where
  "orphans lang_strings [] lang_orphan = lang_orphan"
| "orphans lang_strings ((k, s) # rest) lang_orphan =
     (if map_of lang_strings k \<noteq> None then orphans lang_strings rest lang_orphan
      else if k = ''date'' then orphans lang_strings rest lang_orphan
      else orphans lang_strings rest (AList.update k s lang_orphan))"

definition ch_pwd :: "string \<Rightarrow> path" where
  "ch_pwd chapter = PWD @ [''chapter'' @ chapter]"

text \<open>Lines 102 to 135, for one language.\<close>

definition split_lang :: "raw_lang \<Rightarrow> string \<Rightarrow> sourcemap \<Rightarrow> string \<Rightarrow> fs \<Rightarrow> error + fs" where
  "split_lang raw_lang chapter ch_sourcemap lang fs =
     (let obj_dir = ch_pwd chapter @ [lang, ''obj''];
          (lang_strings, fs1) =
             split_files (lookup_string raw_lang chapter lang) obj_dir ch_sourcemap ([], fs);
          lang_orphan_file = obj_dir @ [''orphan.json'']
      in case map_of raw_lang chapter of
           None \<Rightarrow> Inl KeyError
         | Some langs \<Rightarrow>
             (case map_of langs lang of
                None \<Rightarrow> Inl KeyError
              | Some strs \<Rightarrow>
                  let lang_orphan = orphans lang_strings strs []
                  in if lang_orphan \<noteq> []
                     then Inr (dict2file lang_orphan lang_orphan_file fs1)
                     else Inr (rmfile lang_orphan_file fs1)))"

text \<open>Lines 65 to 135, for one chapter.\<close>

definition split_chapter :: "raw_lang \<Rightarrow> raw_sourcemap \<Rightarrow> string \<Rightarrow> fs \<Rightarrow> error + fs" where
  "split_chapter raw_lang raw_sourcemap chapter fs =
     (case map_of raw_sourcemap chapter of
        None \<Rightarrow> Inl KeyError
      | Some entries \<Rightarrow>
          (case build_sourcemap entries of
             Inl e \<Rightarrow> Inl e
           | Inr ch_sourcemap \<Rightarrow>
               foldM (split_lang raw_lang chapter ch_sourcemap) LANGS
                 (dict2file (sourcemap_json ch_sourcemap)
                    (ch_pwd chapter @ [''sourcemap.json'']) fs)))"

text \<open>
  \<^verbatim>\<open>split_dump\<close>; the two raw documents, read from \<^verbatim>\<open>lang.json\<close> and
  \<^verbatim>\<open>sourcemap.json\<close> before anything is written, are its arguments.
\<close>

definition split_dump :: "raw_lang \<Rightarrow> raw_sourcemap \<Rightarrow> fs \<Rightarrow> error + fs" where
  "split_dump raw_lang raw_sourcemap fs = foldM (split_chapter raw_lang raw_sourcemap) CHAPTERS fs"

subsection \<open>Compiler\<close>

text \<open>
  Lines 160 to 164: the loop over the keys of \<^verbatim>\<open>baselang_obj\<close>, which overwrites the
  values of the keys that \<^verbatim>\<open>newlang_obj\<close> has. The state is
  \<^verbatim>\<open>(count_translated, baselang_obj)\<close>.
\<close>

fun merge_keys :: "json dict \<Rightarrow> string list \<Rightarrow> int \<times> json dict \<Rightarrow> int \<times> json dict" where
  "merge_keys newlang_obj [] st = st"
| "merge_keys newlang_obj (k # ks) (count_translated, baselang_obj) =
     (case map_of newlang_obj k of
        None \<Rightarrow> merge_keys newlang_obj ks (count_translated, baselang_obj)
      | Some s \<Rightarrow>
          merge_keys newlang_obj ks (count_translated + 1, AList.update k s baselang_obj))"

text \<open>
  Lines 154 to 165: the loop over the files of the base language's object directory. The
  state is \<^verbatim>\<open>(count_translated, new_lang_dict)\<close>; a target file that is not there is
  read as the empty object.
\<close>

fun assemble :: "fs \<Rightarrow> path \<Rightarrow> path \<Rightarrow> string list \<Rightarrow> int \<times> json dict \<Rightarrow> error + (int \<times> json dict)" where
  "assemble fs baselang_objs new_lang_objs [] st = Inr st"
| "assemble fs baselang_objs new_lang_objs (obj # rest) (count_translated, new_lang_dict) =
     (case file2dict (baselang_objs @ [obj]) fs of
        Inl e \<Rightarrow> Inl e
      | Inr baselang_obj \<Rightarrow>
          let newlang_obj =
                (case file2dict (new_lang_objs @ [obj]) fs of Inl e \<Rightarrow> [] | Inr d \<Rightarrow> d);
              (count_translated', baselang_obj') =
                merge_keys newlang_obj (map fst baselang_obj) (count_translated, baselang_obj)
          in assemble fs baselang_objs new_lang_objs rest
               (count_translated', dict_merge new_lang_dict baselang_obj'))"

text \<open>
  Python's \<^verbatim>\<open>float\<close> is IEEE 754 binary64. A positive double is a pair \<open>(m, e)\<close> with
  value \<open>m * 2 ^ e\<close> and \<open>m\<close> of at most 53 bits. \<open>round_double a b\<close> is the double
  nearest to the quotient \<open>a / b\<close> of two integers (\<open>0 \<le> a\<close>, \<open>0 < b\<close>), ties going
  to the even significand; the exponent is not bounded, which for quotients of dictionary
  sizes is no restriction. True division of two integers, and the product of a double
  with the integer 100, are each rounded once; \<^verbatim>\<open>int(x)\<close> drops the fraction.
\<close>

function bit_length :: "int \<Rightarrow> int" where
  "bit_length n = (if n \<le> 0 then 0 else 1 + bit_length (n div 2))"
  by pat_completeness auto
termination
  by (relation "measure nat") auto

declare bit_length.simps [simp del]

definition rne_div :: "int \<Rightarrow> int \<Rightarrow> int" where
  "rne_div a b =
     (let q = a div b; r = a mod b
      in if 2 * r < b then q else if b < 2 * r then q + 1 else if even q then q else q + 1)"

definition round_double :: "int \<Rightarrow> int \<Rightarrow> int \<times> int" where
  "round_double a b =
     (if a \<le> 0 then (0, 0)
      else let e0 = bit_length a - bit_length b - 53;
               e = (if a * 2 ^ nat (- e0) < 2 ^ 53 * (b * 2 ^ nat e0) then e0 else e0 + 1)
           in (rne_div (a * 2 ^ nat (- e)) (b * 2 ^ nat e), e))"

definition float_div :: "int \<Rightarrow> int \<Rightarrow> int \<times> int" where
  "float_div t n = round_double t n"

definition float_mul :: "int \<times> int \<Rightarrow> int \<Rightarrow> int \<times> int" where
  "float_mul x k = (case x of (m, e) \<Rightarrow> round_double (m * k * 2 ^ nat e) (2 ^ nat (- e)))"

definition float_int :: "int \<times> int \<Rightarrow> int" where
  "float_int x = (case x of (m, e) \<Rightarrow> (m * 2 ^ nat e) div 2 ^ nat (- e))"

text \<open>Line 167: \<^verbatim>\<open>int((count_translated / count_all) * 100)\<close>.\<close>

definition l10n_progress :: "int \<Rightarrow> int \<Rightarrow> error + int" where
  "l10n_progress count_translated count_all =
     (if count_all = 0 then Inl ZeroDivisionError
      else Inr (float_int (float_mul (float_div count_translated count_all) 100)))"

text \<open>
  Lines 169 to 172: where the document goes. \<open>home\<close> is the value of the environment
  variable, as a path, when it is set.
\<close>

definition new_lang_file :: "path option \<Rightarrow> string \<Rightarrow> string \<Rightarrow> path" where
  "new_lang_file home lang chapter =
     (case home of
        Some h \<Rightarrow> h @ [''chapter'' @ chapter @ ''_windows'', ''lang'', ''lang_en.json'']
      | None \<Rightarrow> ch_pwd chapter @ [''lang_'' @ lang @ ''.json''])"

text \<open>
  \<^verbatim>\<open>compile_lang\<close>. \<open>DATE\<close> is the time stamp the run reads from the clock. The
  result is what the run reports (translated keys, all keys, percentage) and the file
  system after the document is written.
\<close>

definition compile_lang :: "string \<Rightarrow> path option \<Rightarrow> string \<Rightarrow> string \<Rightarrow> fs \<Rightarrow> error + ((int \<times> int \<times> int) \<times> fs)" where
  "compile_lang DATE home lang chapter fs =
     (let baselang_objs = ch_pwd chapter @ [BASE_LANG, ''obj''];
          new_lang_objs = ch_pwd chapter @ [lang, ''obj'']
      in case assemble fs baselang_objs new_lang_objs (iterdir baselang_objs fs)
                (0, [(''date'', JStr DATE)]) of
           Inl e \<Rightarrow> Inl e
         | Inr (count_translated, new_lang_dict) \<Rightarrow>
             let count_all = int (length new_lang_dict) - 1
             in (case l10n_progress count_translated count_all of
                   Inl e \<Rightarrow> Inl e
                 | Inr progress \<Rightarrow>
                     Inr ((count_translated, count_all, progress),
                          dict2file new_lang_dict (new_lang_file home lang chapter) fs)))"

subsection \<open>Initializer\<close>



section \<open>Notions of the specification\<close>

text \<open>
  The number a string of digits denotes: Python's \<^verbatim>\<open>int(piece)\<close> for the decimal digits
  \<^verbatim>\<open>0\<close> to \<^verbatim>\<open>9\<close>; a superscript digit counts as the digit it shows (its Unicode digit
  value). \<open>digits\<close> holds of the strings of decimal digits.
\<close>

definition digit_val :: "char \<Rightarrow> nat" where
  "digit_val c =
     (if c = CHR 0xB9 then 1 else if c = CHR 0xB2 then 2 else if c = CHR 0xB3 then 3
      else of_char c - 48)"

definition int_of_digits :: "string \<Rightarrow> nat" where
  "int_of_digits s = foldl (\<lambda>n c. 10 * n + digit_val c) 0 s"

definition digits :: "string \<Rightarrow> bool" where
  "digits s \<longleftrightarrow> (\<forall>c \<in> set s. CHR ''0'' \<le> c \<and> c \<le> CHR ''9'')"

text \<open>The keys a chapter source map holds, file after file.\<close>

definition sm_values :: "sourcemap \<Rightarrow> string list" where
  "sm_values sm = concat (map (\<lambda>(filename, m). map snd m) sm)"

text \<open>
  The effect of a run on the files: \<open>w p = Some (Some d)\<close> writes \<open>d\<close> to \<open>p\<close>,
  \<open>w p = Some None\<close> removes \<open>p\<close>, and every other path is left as it was. A step
  \<open>patches\<close> when it either fails the same way from every file system, or succeeds from
  every file system with one such effect.
\<close>

definition patch :: "(path \<rightharpoonup> json dict option) \<Rightarrow> (path \<rightharpoonup> json dict) \<Rightarrow> (path \<rightharpoonup> json dict)" where
  "patch w m = (\<lambda>p. case w p of None \<Rightarrow> m p | Some x \<Rightarrow> x)"

definition writes :: "(fs \<Rightarrow> fs) \<Rightarrow> bool" where
  "writes g \<longleftrightarrow> (\<exists>w. \<forall>fs. map_of (g fs) = patch w (map_of fs))"

definition patches :: "(fs \<Rightarrow> error + fs) \<Rightarrow> bool" where
  "patches F \<longleftrightarrow>
     (\<exists>e. \<forall>fs. F fs = Inl e) \<or>
     (\<exists>w. \<forall>fs. \<exists>fs'. F fs = Inr fs' \<and> map_of fs' = patch w (map_of fs))"

text \<open>The object a file holds, the empty object when the file is not there.\<close>

definition read_obj :: "fs \<Rightarrow> path \<Rightarrow> json dict" where
  "read_obj fs p = (case map_of fs p of None \<Rightarrow> [] | Some d \<Rightarrow> d)"

text \<open>
  A base object with the values of the target object laid over it, and the number of its
  keys that the target object has.
\<close>

definition merged :: "json dict \<Rightarrow> json dict \<Rightarrow> json dict" where
  "merged newlang_obj baselang_obj =
     map (\<lambda>(k, v). (k, case map_of newlang_obj k of None \<Rightarrow> v | Some s \<Rightarrow> s)) baselang_obj"

definition translated :: "json dict \<Rightarrow> json dict \<Rightarrow> int" where
  "translated newlang_obj baselang_obj =
     int (length (filter (\<lambda>k. map_of newlang_obj k \<noteq> None) (map fst baselang_obj)))"


section \<open>Properties\<close>

subsection \<open>Natural sort key\<close>

lemma foldl_digits: "foldl (\<lambda>n c. 10 * n + digit_val c) a s = a * 10 ^ length s + int_of_digits s"
  unfolding int_of_digits_def
proof (induction s arbitrary: a)
  case Nil
  show ?case by simp
next
  case (Cons c s)
  show ?case
    using Cons.IH [of "10 * a + digit_val c"] Cons.IH [of "digit_val c"]
    by (simp add: algebra_simps)
qed

lemma int_of_digits_Cons: "int_of_digits (c # s) = digit_val c * 10 ^ length s + int_of_digits s"
  using foldl_digits [of "digit_val c" s] by (simp add: int_of_digits_def)

lemma int_of_digits_Nil: "int_of_digits [] = 0"
  by (simp add: int_of_digits_def)

lemma digit_val_decimal: "c \<le> CHR ''9'' \<Longrightarrow> digit_val c = of_char c - 48"
  by (auto simp add: digit_val_def less_eq_char_def)

lemma digit_val_less: "CHR ''0'' \<le> c \<Longrightarrow> c \<le> CHR ''9'' \<Longrightarrow> digit_val c < 10"
  by (simp add: digit_val_decimal) (simp add: less_eq_char_def)

lemma digit_val_mono:
  "CHR ''0'' \<le> c \<Longrightarrow> c \<le> CHR ''9'' \<Longrightarrow> CHR ''0'' \<le> d \<Longrightarrow> d \<le> CHR ''9'' \<Longrightarrow>
   (c < d) = (digit_val c < digit_val d)"
  by (simp add: digit_val_decimal) (auto simp add: less_eq_char_def less_char_def)

lemma digit_val_inj:
  "CHR ''0'' \<le> c \<Longrightarrow> c \<le> CHR ''9'' \<Longrightarrow> CHR ''0'' \<le> d \<Longrightarrow> d \<le> CHR ''9'' \<Longrightarrow>
   (c = d) = (digit_val c = digit_val d)"
  using digit_val_mono [of c d] digit_val_mono [of d c]
  by (metis less_irrefl linorder_neqE_nat antisym_conv3)

lemma int_of_digits_bound: "digits s \<Longrightarrow> int_of_digits s < 10 ^ length s"
proof (induction s)
  case Nil
  show ?case by (simp add: int_of_digits_Nil)
next
  case (Cons c s)
  have d: "digit_val c \<le> 9" using Cons.prems digit_val_less [of c] by (simp add: digits_def)
  have r: "int_of_digits s < 10 ^ length s" using Cons by (simp add: digits_def)
  define P :: nat where "P = 10 ^ length s"
  have r': "int_of_digits s < P" using r by (simp add: P_def)
  have a: "digit_val c * P \<le> 9 * P" using d by simp
  have "digit_val c * P + int_of_digits s < 10 * P" using a r' by linarith
  then show ?case by (simp add: int_of_digits_Cons P_def)
qed

lemma digits_order:
  "length s = length t \<Longrightarrow> digits s \<Longrightarrow> digits t \<Longrightarrow>
   (s < t) = (int_of_digits s < int_of_digits t) \<and> (s = t) = (int_of_digits s = int_of_digits t)"
proof (induction s t rule: list_induct2)
  case Nil
  show ?case by (simp add: int_of_digits_Nil)
next
  case (Cons c s d t)
  have ds: "digits s" and dt: "digits t" and c0: "CHR ''0'' \<le> c" and d0: "CHR ''0'' \<le> d"
    and c9: "c \<le> CHR ''9''" and d9: "d \<le> CHR ''9''"
    using Cons.prems by (simp_all add: digits_def)
  note IH = Cons.IH [OF ds dt]
  have bs: "int_of_digits s < 10 ^ length t" using int_of_digits_bound [OF ds] Cons.hyps by simp
  have bt: "int_of_digits t < 10 ^ length t" using int_of_digits_bound [OF dt] by simp
  let ?P = "(10::nat) ^ length t"
  have key: "\<And>a b x y. x < ?P \<Longrightarrow> y < ?P \<Longrightarrow> a < b \<Longrightarrow> a * ?P + x < b * ?P + y"
  proof -
    fix a b x y :: nat
    assume x: "x < ?P" and y: "y < ?P" and ab: "a < b"
    have "a * ?P + x < (a + 1) * ?P" using x by (simp add: algebra_simps)
    also have "\<dots> \<le> b * ?P" using ab by (intro mult_le_mono1) simp
    finally show "a * ?P + x < b * ?P + y" by simp
  qed
  consider "digit_val c < digit_val d" | "digit_val c = digit_val d" | "digit_val d < digit_val c"
    by linarith
  then show ?case
  proof cases
    case 1
    then have "c < d" using digit_val_mono [OF c0 c9 d0 d9] by simp
    moreover have "digit_val c * ?P + int_of_digits s < digit_val d * ?P + int_of_digits t"
      using key [OF bs bt 1] .
    ultimately show ?thesis using Cons.hyps by (auto simp add: int_of_digits_Cons)
  next
    case 2
    then have "c = d" using digit_val_inj [OF c0 c9 d0 d9] by simp
    then show ?thesis using IH Cons.hyps 2 by (simp add: int_of_digits_Cons)
  next
    case 3
    then have "d < c" using digit_val_mono [OF d0 d9 c0 c9] by simp
    moreover have "digit_val d * ?P + int_of_digits t < digit_val c * ?P + int_of_digits s"
      using key [OF bt bs 3] .
    ultimately show ?thesis using Cons.hyps by (auto simp add: int_of_digits_Cons)
  qed
qed

lemma int_of_digits_zeros: "int_of_digits (replicate k (CHR ''0'') @ s) = int_of_digits s"
  by (induction k) (simp_all add: int_of_digits_Cons digit_val_def)

lemma digits_isdigit: "digits s \<Longrightarrow> s \<noteq> [] \<Longrightarrow> isdigit s"
  by (simp add: isdigit_def digits_def)

lemma rjust_digits: "digits s \<Longrightarrow> digits (rjust 16 (CHR ''0'') s)"
  by (auto simp add: digits_def rjust_def)

lemma rjust_length: "length s \<le> 16 \<Longrightarrow> length (rjust 16 (CHR ''0'') s) = 16"
  by (simp add: rjust_def)

lemma rjust_order:
  assumes "digits p" "length p \<le> 16" "digits q" "length q \<le> 16"
  shows "(rjust 16 (CHR ''0'') p < rjust 16 (CHR ''0'') q) = (int_of_digits p < int_of_digits q)"
    and "(rjust 16 (CHR ''0'') p = rjust 16 (CHR ''0'') q) = (int_of_digits p = int_of_digits q)"
proof -
  let ?p = "rjust 16 (CHR ''0'') p" and ?q = "rjust 16 (CHR ''0'') q"
  have len: "length ?p = length ?q" using assms by (simp add: rjust_length)
  have dp: "digits ?p" and dq: "digits ?q" using assms by (simp_all add: rjust_digits)
  have vp: "int_of_digits ?p = int_of_digits p" and vq: "int_of_digits ?q = int_of_digits q"
    by (simp_all add: rjust_def int_of_digits_zeros)
  show "(?p < ?q) = (int_of_digits p < int_of_digits q)"
    using digits_order [OF len dp dq] vp vq by simp
  show "(?p = ?q) = (int_of_digits p = int_of_digits q)"
    using digits_order [OF len dp dq] vp vq by simp
qed

definition pad :: "string \<Rightarrow> string" where
  "pad piece = (if isdigit piece then rjust 16 (CHR ''0'') piece else piece)"

lemma smartsort_pad: "smartsort (t, v) = map pad (split_str (CHR ''_'') t)"
  by (simp add: smartsort_def pad_def)

lemma pad_digits: "digits p \<Longrightarrow> p \<noteq> [] \<Longrightarrow> pad p = rjust 16 (CHR ''0'') p"
  by (simp add: pad_def digits_isdigit)

lemma pad_list_order:
  "\<forall>p \<in> set ps \<union> set qs. digits p \<and> p \<noteq> [] \<and> length p \<le> 16 \<Longrightarrow>
   (map pad ps < map pad qs) = (map int_of_digits ps < map int_of_digits qs)"
proof (induction ps arbitrary: qs)
  case Nil
  show ?case by (cases qs) simp_all
next
  case (Cons p ps)
  show ?case
  proof (cases qs)
    case Nil
    then show ?thesis by simp
  next
    case (Cons q qs')
    have pq: "digits p" "length p \<le> 16" "digits q" "length q \<le> 16"
      and ne: "p \<noteq> []" "q \<noteq> []"
      using Cons.prems Cons by simp_all
    have IH: "(map pad ps < map pad qs') = (map int_of_digits ps < map int_of_digits qs')"
      using Cons.IH [of qs'] Cons.prems Cons by simp
    have pp: "pad p = rjust 16 (CHR ''0'') p" and pq': "pad q = rjust 16 (CHR ''0'') q"
      using pq ne by (simp_all add: pad_digits)
    show ?thesis
      using IH rjust_order [OF pq] Cons by (simp add: pp pq')
  qed
qed

lemma pad_prefix_order:
  "digits p \<Longrightarrow> p \<noteq> [] \<Longrightarrow> length p \<le> 16 \<Longrightarrow> digits q \<Longrightarrow> q \<noteq> [] \<Longrightarrow> length q \<le> 16 \<Longrightarrow>
   int_of_digits p \<noteq> int_of_digits q \<Longrightarrow>
   (map pad (xs @ p # ys) < map pad (xs @ q # zs)) = (int_of_digits p < int_of_digits q)"
proof (induction xs)
  case Nil
  then show ?case using rjust_order [of p q] by (simp add: pad_digits)
next
  case (Cons x xs)
  then show ?case by simp
qed


text \<open>
  C5, as amended. The natural sort key replaces every underscore-delimited segment that
  passes \<^verbatim>\<open>str.isdigit\<close> by the segment left-padded with zeros to 16 characters, and
  leaves every other segment as it is. For two tokens all of whose segments are strings
  of one to 16 decimal digits \<^verbatim>\<open>0\<close> to \<^verbatim>\<open>9\<close>, the keys compare as the lists of the numbers
  the segments denote; for two tokens with a common run of leading segments followed by
  such segments that denote different numbers, the keys compare as these two numbers. In
  particular the key of "9" is below the key of "10".
\<close>

theorem smartsort_natural_order:
  "smartsort (a, u) =
     map (\<lambda>piece. if isdigit piece then replicate (16 - length piece) (CHR ''0'') @ piece else piece)
       (split_str (CHR ''_'') a)
   \<and> ((\<forall>p \<in> set (split_str (CHR ''_'') a) \<union> set (split_str (CHR ''_'') b).
          digits p \<and> p \<noteq> [] \<and> length p \<le> 16) \<longrightarrow>
        (smartsort (a, u) < smartsort (b, w)) =
        (map int_of_digits (split_str (CHR ''_'') a) < map int_of_digits (split_str (CHR ''_'') b)))
   \<and> (split_str (CHR ''_'') a = xs @ p # ys \<and> split_str (CHR ''_'') b = xs @ q # zs \<and>
        digits p \<and> p \<noteq> [] \<and> length p \<le> 16 \<and> digits q \<and> q \<noteq> [] \<and> length q \<le> 16 \<and>
        int_of_digits p \<noteq> int_of_digits q \<longrightarrow>
        (smartsort (a, u) < smartsort (b, w)) = (int_of_digits p < int_of_digits q))
   \<and> smartsort (''9'', u) < smartsort (''10'', w)"
proof (intro conjI impI)
  show "smartsort (a, u) =
     map (\<lambda>piece. if isdigit piece then replicate (16 - length piece) (CHR ''0'') @ piece else piece)
       (split_str (CHR ''_'') a)"
    by (simp add: smartsort_def rjust_def)
next
  assume "\<forall>p \<in> set (split_str (CHR ''_'') a) \<union> set (split_str (CHR ''_'') b).
            digits p \<and> p \<noteq> [] \<and> length p \<le> 16"
  then show "(smartsort (a, u) < smartsort (b, w)) =
        (map int_of_digits (split_str (CHR ''_'') a) < map int_of_digits (split_str (CHR ''_'') b))"
    using pad_list_order [of "split_str (CHR ''_'') a" "split_str (CHR ''_'') b"]
    by (simp only: smartsort_pad)
next
  assume h: "split_str (CHR ''_'') a = xs @ p # ys \<and> split_str (CHR ''_'') b = xs @ q # zs \<and>
        digits p \<and> p \<noteq> [] \<and> length p \<le> 16 \<and> digits q \<and> q \<noteq> [] \<and> length q \<le> 16 \<and>
        int_of_digits p \<noteq> int_of_digits q"
  then show "(smartsort (a, u) < smartsort (b, w)) = (int_of_digits p < int_of_digits q)"
    using pad_prefix_order [of p q xs ys zs] by (simp add: smartsort_pad)
next
  show "smartsort (''9'', u) < smartsort (''10'', w)"
    by (simp add: smartsort_def isdigit_def rjust_def eval_nat_numeral)
qed

theorem smartsort_natural_order_witness:
  "digits ''42'' \<and> digits ''9'' \<and> digits ''10''
   \<and> split_str (CHR ''_'') ''42_9'' = [''42''] @ ''9'' # []
   \<and> split_str (CHR ''_'') ''42_10'' = [''42''] @ ''10'' # []
   \<and> int_of_digits ''9'' \<noteq> int_of_digits ''10''
   \<and> smartsort (''42_9'', ()) < smartsort (''42_10'', ())
   \<and> map int_of_digits (split_str (CHR ''_'') ''42_9'') < map int_of_digits (split_str (CHR ''_'') ''42_10'')
   \<and> int_of_digits ''9'' < int_of_digits ''10''"
  using smartsort_natural_order [of "''42_9''" "()" "''42_10''" "()" "[''42'']" "''9''" "[]" "''10''" "[]"]
  by (simp add: digits_def isdigit_def int_of_digits_def digit_val_def smartsort_def rjust_def
        eval_nat_numeral)

text \<open>
  The claim as it was stated fails for the superscript digits, which \<^verbatim>\<open>str.isdigit\<close>
  accepts: the tokens \<^verbatim>\<open>\<onesuperior>\<close> (U+00B9) and \<^verbatim>\<open>2\<close> are numeric segments of one digit,
  one is less than two, and yet the key of \<^verbatim>\<open>2\<close> is below the key of \<^verbatim>\<open>\<onesuperior>\<close>, whose
  code point lies above those of \<^verbatim>\<open>0\<close> to \<^verbatim>\<open>9\<close>.
\<close>

theorem smartsort_natural_order_counterexample:
  "isdigit [CHR 0xB9] \<and> isdigit ''2''
   \<and> split_str (CHR ''_'') [CHR 0xB9] = [[CHR 0xB9]] \<and> split_str (CHR ''_'') ''2'' = [''2'']
   \<and> length [CHR 0xB9] \<le> 16 \<and> length ''2'' \<le> 16
   \<and> int_of_digits [CHR 0xB9] < int_of_digits ''2''
   \<and> smartsort (''2'', ()) < smartsort ([CHR 0xB9], ())
   \<and> smartsort ([CHR 0xB9], ()) =
       [''000000000000000'' @ [CHR 0xB9]]"
  by (simp add: isdigit_def int_of_digits_def digit_val_def smartsort_def rjust_def
        eval_nat_numeral)

subsection \<open>The disambiguation counter\<close>

lemma count_dups_count:
  "count_dups vs m v =
     (if count_list vs v = 0 then m v
      else Some (count_list vs v + (case m v of None \<Rightarrow> 0 | Some c \<Rightarrow> c)))"
proof (induction vs arbitrary: m)
  case Nil
  show ?case by simp
next
  case (Cons a vs)
  show ?case
    by (cases "m a") (auto simp add: Cons.IH)
qed

lemma count_dups_empty:
  "count_dups vs Map.empty v = (if v \<in> set vs then Some (count_list vs v) else None)"
  by (simp add: count_dups_count count_list_0_iff)

lemma positions_length: "positions dm kvs c = Inr ps \<Longrightarrow> length ps = length kvs"
proof (induction kvs arbitrary: c ps)
  case Nil
  then show ?case by simp
next
  case (Cons kv kvs)
  obtain k v where kv: "kv = (k, v)" by (cases kv)
  from Cons.prems kv obtain c' f l ps' where
    loc: "locate dm c v = Inr (c', f, l)" and rest: "positions dm kvs c' = Inr ps'"
    and ps: "ps = (c', f, l, k) # ps'"
    by (auto split: sum.splits)
  show ?case using Cons.IH [OF rest] ps by simp
qed

lemma positions_step:
  "positions dm kvs c0 = Inr ps \<Longrightarrow> i < length kvs \<Longrightarrow>
   locate dm (if i = 0 then c0 else fst (ps ! (i - 1))) (snd (kvs ! i)) =
     Inr (fst (ps ! i), fst (snd (ps ! i)), fst (snd (snd (ps ! i))))
   \<and> snd (snd (snd (ps ! i))) = fst (kvs ! i)"
proof (induction kvs arbitrary: c0 ps i)
  case Nil
  then show ?case by simp
next
  case (Cons kv kvs)
  obtain k v where kv: "kv = (k, v)" by (cases kv)
  from Cons.prems(1) kv obtain c' f l ps' where
    loc: "locate dm c0 v = Inr (c', f, l)" and rest: "positions dm kvs c' = Inr ps'"
    and ps: "ps = (c', f, l, k) # ps'"
    by (auto split: sum.splits)
  show ?case
  proof (cases i)
    case 0
    then show ?thesis using loc ps kv by simp
  next
    case (Suc j)
    then have j: "j < length kvs" using Cons.prems(2) by simp
    have len: "length ps' = length kvs" using positions_length [OF rest] .
    show ?thesis
    proof (cases j)
      case 0
      then show ?thesis using Cons.IH [OF rest j] Suc ps by simp
    next
      case (Suc j')
      then show ?thesis using Cons.IH [OF rest j] \<open>i = Suc j\<close> ps by simp
    qed
  qed
qed

lemma positions_total:
  "\<forall>v \<in> set (map snd kvs). length (split_str (CHR '':'') v) = 2 \<and> dm v \<noteq> None \<Longrightarrow>
   \<exists>ps. positions dm kvs c = Inr ps"
proof (induction kvs arbitrary: c)
  case Nil
  show ?case by simp
next
  case (Cons kv kvs)
  obtain k v where kv: "kv = (k, v)" by (cases kv)
  have "length (split_str (CHR '':'') v) = 2" and "dm v \<noteq> None"
    using Cons.prems kv by simp_all
  then obtain f l n where sp: "split_str (CHR '':'') v = [f, l]" and dm: "dm v = Some n"
    by (auto simp add: length_Suc_conv numeral_2_eq_2)
  obtain c' l' where loc: "locate dm c v = Inr (c', f, l')"
    using sp dm by (cases "n > 1") (simp_all add: locate_def)
  obtain ps where "positions dm kvs c' = Inr ps"
    using Cons.IH [of c'] Cons.prems by auto
  then show ?case using loc kv by simp
qed

lemma locate_counted:
  assumes "split_str (CHR '':'') v = [f, l]" and "v \<in> set vs"
  shows "locate (count_dups vs Map.empty) c v =
     Inr (if count_list vs v > 1 then (c + 1, f, l @ ''_'' @ str_nat (c + 1)) else (0, f, l))"
  using assms by (simp add: locate_def count_dups_empty)

lemma rebuild_positions:
  "rebuild dm kvs (c, sm) =
     (case positions dm kvs c of
        Inl e \<Rightarrow> Inl e
      | Inr ps \<Rightarrow> Inr (if ps = [] then c else fst (last ps),
                       fold (\<lambda>(c', f, l, k). store f l k) ps sm))"
proof (induction kvs arbitrary: c sm)
  case Nil
  show ?case by simp
next
  case (Cons kv kvs)
  obtain k v where kv: "kv = (k, v)" by (cases kv)
  show ?case
    by (auto simp add: kv Cons.IH split: sum.splits)
qed

lemma positions_counted:
  assumes wf: "\<forall>v \<in> set (map snd entries). length (split_str (CHR '':'') v) = 2"
  shows "\<exists>ps. positions (count_dups (map snd entries) Map.empty) entries 0 = Inr ps
     \<and> length ps = length entries
     \<and> (\<forall>i < length entries. \<exists>filename lineno.
          split_str (CHR '':'') (snd (entries ! i)) = [filename, lineno] \<and>
          ps ! i =
            (if count_list (map snd entries) (snd (entries ! i)) > 1
             then ((if i = 0 then 0 else fst (ps ! (i - 1))) + 1, filename,
                   lineno @ ''_'' @ str_nat ((if i = 0 then 0 else fst (ps ! (i - 1))) + 1),
                   fst (entries ! i))
             else (0, filename, lineno, fst (entries ! i))))"
proof -
  let ?dm = "count_dups (map snd entries) Map.empty"
  have "\<forall>v \<in> set (map snd entries). length (split_str (CHR '':'') v) = 2 \<and> ?dm v \<noteq> None"
    using wf by (simp add: count_dups_empty)
  then obtain ps where ps: "positions ?dm entries 0 = Inr ps"
    using positions_total [of entries ?dm 0] by blast
  have len: "length ps = length entries" using positions_length [OF ps] .
  have "\<exists>filename lineno.
          split_str (CHR '':'') (snd (entries ! i)) = [filename, lineno] \<and>
          ps ! i =
            (if count_list (map snd entries) (snd (entries ! i)) > 1
             then ((if i = 0 then 0 else fst (ps ! (i - 1))) + 1, filename,
                   lineno @ ''_'' @ str_nat ((if i = 0 then 0 else fst (ps ! (i - 1))) + 1),
                   fst (entries ! i))
             else (0, filename, lineno, fst (entries ! i)))" if i: "i < length entries" for i
  proof -
    let ?v = "snd (entries ! i)"
    have mem: "?v \<in> set (map snd entries)" using i by simp
    then have "length (split_str (CHR '':'') ?v) = 2" using wf by blast
    then obtain f l where sp: "split_str (CHR '':'') ?v = [f, l]"
      by (auto simp add: length_Suc_conv numeral_2_eq_2)
    note st = positions_step [OF ps i]
    note lc = locate_counted [OF sp mem, of "if i = 0 then 0 else fst (ps ! (i - 1))"]
    obtain a b c d where pi: "ps ! i = (a, b, c, d)" by (cases "ps ! i")
    show ?thesis
      using st lc sp pi by (auto split: if_splits)
  qed
  then show ?thesis using ps len by blast
qed
text \<open>
  C3. While the loop of lines 82 to 95 walks a chapter's entries (each location with exactly
  one colon, so that the loop does not raise), the counter after an entry is 0 when the
  entry's location occurs once in the chapter, and one more than the counter before the
  entry when the location occurs more than once; in the second case the token is the line
  number followed by an underscore and the counter's value after the increment, in the
  first case it is the line number alone. The source map the loop builds is these tokens
  stored in order.
\<close>

theorem disambiguation_counter:
  assumes "\<forall>v \<in> set (map snd entries). length (split_str (CHR '':'') v) = 2"
  shows "\<exists>ps. positions (count_dups (map snd entries) Map.empty) entries 0 = Inr ps
     \<and> length ps = length entries
     \<and> rebuild (count_dups (map snd entries) Map.empty) entries (0, []) =
         Inr (if ps = [] then 0 else fst (last ps), fold (\<lambda>(c, f, l, k). store f l k) ps [])
     \<and> (\<forall>i < length entries. \<exists>filename lineno.
          split_str (CHR '':'') (snd (entries ! i)) = [filename, lineno] \<and>
          (count_list (map snd entries) (snd (entries ! i)) = 1 \<longrightarrow>
             ps ! i = (0, filename, lineno, fst (entries ! i))) \<and>
          (count_list (map snd entries) (snd (entries ! i)) > 1 \<longrightarrow>
             ps ! i = ((if i = 0 then 0 else fst (ps ! (i - 1))) + 1, filename,
                       lineno @ ''_'' @ str_nat ((if i = 0 then 0 else fst (ps ! (i - 1))) + 1),
                       fst (entries ! i))))"
proof -
  from positions_counted [OF assms] obtain ps where
    ps: "positions (count_dups (map snd entries) Map.empty) entries 0 = Inr ps"
    and len: "length ps = length entries"
    and each: "\<forall>i < length entries. \<exists>filename lineno.
          split_str (CHR '':'') (snd (entries ! i)) = [filename, lineno] \<and>
          ps ! i =
            (if count_list (map snd entries) (snd (entries ! i)) > 1
             then ((if i = 0 then 0 else fst (ps ! (i - 1))) + 1, filename,
                   lineno @ ''_'' @ str_nat ((if i = 0 then 0 else fst (ps ! (i - 1))) + 1),
                   fst (entries ! i))
             else (0, filename, lineno, fst (entries ! i)))"
    by blast
  have rb: "rebuild (count_dups (map snd entries) Map.empty) entries (0, []) =
         Inr (if ps = [] then 0 else fst (last ps), fold (\<lambda>(c, f, l, k). store f l k) ps [])"
    by (simp add: rebuild_positions ps)
  have "\<exists>filename lineno.
          split_str (CHR '':'') (snd (entries ! i)) = [filename, lineno] \<and>
          (count_list (map snd entries) (snd (entries ! i)) = 1 \<longrightarrow>
             ps ! i = (0, filename, lineno, fst (entries ! i))) \<and>
          (count_list (map snd entries) (snd (entries ! i)) > 1 \<longrightarrow>
             ps ! i = ((if i = 0 then 0 else fst (ps ! (i - 1))) + 1, filename,
                       lineno @ ''_'' @ str_nat ((if i = 0 then 0 else fst (ps ! (i - 1))) + 1),
                       fst (entries ! i)))" if "i < length entries" for i
  proof -
    from each that obtain filename lineno where
      "split_str (CHR '':'') (snd (entries ! i)) = [filename, lineno]"
      "ps ! i =
            (if count_list (map snd entries) (snd (entries ! i)) > 1
             then ((if i = 0 then 0 else fst (ps ! (i - 1))) + 1, filename,
                   lineno @ ''_'' @ str_nat ((if i = 0 then 0 else fst (ps ! (i - 1))) + 1),
                   fst (entries ! i))
             else (0, filename, lineno, fst (entries ! i)))"
      by blast
    then show ?thesis by (intro exI [of _ filename] exI [of _ lineno]) simp
  qed
  then show ?thesis using ps len rb by blast
qed

theorem disambiguation_counter_witness:
  "length (split_str (CHR '':'') ''f:10'') = 2 \<and> length (split_str (CHR '':'') ''f:20'') = 2
   \<and> (\<exists>ps. positions
          (count_dups (map snd [(''k1'', ''f:10''), (''k2'', ''f:10''), (''k3'', ''f:20'')]) Map.empty)
          [(''k1'', ''f:10''), (''k2'', ''f:10''), (''k3'', ''f:20'')] 0 = Inr ps
        \<and> length ps = 3
        \<and> ps ! 0 = (1, ''f'', ''10_1'', ''k1'')
        \<and> ps ! 1 = (2, ''f'', ''10_2'', ''k2'')
        \<and> ps ! 2 = (0, ''f'', ''20'', ''k3''))"
proof -
  let ?E = "[(''k1'', ''f:10''), (''k2'', ''f:10''), (''k3'', ''f:20'')]"
  have wf: "\<forall>v \<in> set (map snd ?E). length (split_str (CHR '':'') v) = 2" by simp
  from disambiguation_counter [OF wf] obtain ps where
    ps: "positions (count_dups (map snd ?E) Map.empty) ?E 0 = Inr ps" and "length ps = length ?E"
    by blast
  have "ps = [(1, ''f'', ''10_1'', ''k1''), (2, ''f'', ''10_2'', ''k2''), (0, ''f'', ''20'', ''k3'')]"
    using ps by (auto simp add: locate_def str_nat.simps digit_char_def numeral_2_eq_2)
  then show ?thesis using ps by simp
qed

subsection \<open>Two keys on one line\<close>

lemma count_list_append2: "count_list (xs @ ys) v = count_list xs v + count_list ys v"
  by (induction xs) simp_all

lemma count_list_distinct: "distinct xs \<Longrightarrow> v \<in> set xs \<Longrightarrow> count_list xs v = 1"
  by (induction xs) (auto simp add: count_list_0_iff)

text \<open>
  C2, as the code has it. Let exactly two keys map to the location "file.gml:42" and no
  other location be repeated (every location having exactly one colon). The first of the
  two keys gets the token "42_1", and when the second follows it immediately it gets
  "42_2".
\<close>

theorem same_line_tokens:
  assumes "entries = pre @ [(k1, ''file.gml:42'')] @ mid @ [(k2, ''file.gml:42'')] @ post"
    and "distinct (map snd (pre @ mid @ post))"
    and "''file.gml:42'' \<notin> set (map snd (pre @ mid @ post))"
    and "\<forall>v \<in> set (map snd entries). length (split_str (CHR '':'') v) = 2"
  shows "\<exists>ps. positions (count_dups (map snd entries) Map.empty) entries 0 = Inr ps
     \<and> ps ! length pre = (1, ''file.gml'', ''42_1'', k1)
     \<and> (mid = [] \<longrightarrow> ps ! Suc (length pre) = (2, ''file.gml'', ''42_2'', k2))"
proof -
  let ?L = "''file.gml:42''"
  let ?vs = "map snd entries"
  from positions_counted [OF assms(4)] obtain ps where
    ps: "positions (count_dups ?vs Map.empty) entries 0 = Inr ps"
    and len: "length ps = length entries"
    and each: "\<And>i. i < length entries \<Longrightarrow> \<exists>filename lineno.
          split_str (CHR '':'') (snd (entries ! i)) = [filename, lineno] \<and>
          ps ! i =
            (if count_list ?vs (snd (entries ! i)) > 1
             then ((if i = 0 then 0 else fst (ps ! (i - 1))) + 1, filename,
                   lineno @ ''_'' @ str_nat ((if i = 0 then 0 else fst (ps ! (i - 1))) + 1),
                   fst (entries ! i))
             else (0, filename, lineno, fst (entries ! i)))"
    by blast
  have sp: "split_str (CHR '':'') ?L = [''file.gml'', ''42'']" by simp
  have cL: "count_list ?vs ?L = 2"
    using assms(3) by (simp add: assms(1) count_list_append2 count_list_0_iff)
  have cpre: "count_list ?vs v = 1" if "v \<in> set (map snd pre)" for v
  proof -
    have ne: "v \<noteq> ?L" using that assms(3) by force
    have "count_list (map snd (pre @ mid @ post)) v = 1"
      using count_list_distinct [OF assms(2)] that by simp
    then show ?thesis using ne by (simp add: assms(1) count_list_append2)
  qed
  have e1: "entries ! length pre = (k1, ?L)" by (simp add: assms(1))
  have i1: "length pre < length entries" by (simp add: assms(1))
  have before1: "(if length pre = 0 then 0 else fst (ps ! (length pre - 1))) = 0"
  proof (cases "length pre = 0")
    case True
    then show ?thesis by simp
  next
    case False
    then have j: "length pre - 1 < length pre" by simp
    then have j': "length pre - 1 < length entries" using i1 by simp
    have ej: "entries ! (length pre - 1) = pre ! (length pre - 1)"
      using j by (simp add: assms(1) nth_append)
    have "snd (pre ! (length pre - 1)) \<in> set (map snd pre)" using j by simp
    then have "count_list ?vs (snd (entries ! (length pre - 1))) = 1" using cpre ej by simp
    then have "fst (ps ! (length pre - 1)) = 0" using each [OF j'] by auto
    then show ?thesis using False by simp
  qed
  have p1: "ps ! length pre = (1, ''file.gml'', ''42_1'', k1)"
    using each [OF i1] e1 cL sp before1 by (auto simp add: str_nat.simps digit_char_def)
  have p2: "ps ! Suc (length pre) = (2, ''file.gml'', ''42_2'', k2)" if "mid = []"
  proof -
    have e2: "entries ! Suc (length pre) = (k2, ?L)"
      using that by (simp add: assms(1) nth_append)
    have i2: "Suc (length pre) < length entries" using that by (simp add: assms(1))
    show ?thesis
      using each [OF i2] e2 cL sp p1 by (auto simp add: str_nat.simps digit_char_def numeral_2_eq_2)
  qed
  show ?thesis using ps p1 p2 by blast
qed

theorem same_line_tokens_witness:
  "distinct (map snd ([(''a'', ''file.gml:7'')] @ [] @ [(''b'', ''other.gml:42'')]))
   \<and> ''file.gml:42'' \<notin> set (map snd ([(''a'', ''file.gml:7'')] @ [] @ [(''b'', ''other.gml:42'')]))
   \<and> (\<exists>ps. positions
          (count_dups (map snd [(''a'', ''file.gml:7''), (''k1'', ''file.gml:42''),
             (''k2'', ''file.gml:42''), (''b'', ''other.gml:42'')]) Map.empty)
          [(''a'', ''file.gml:7''), (''k1'', ''file.gml:42''),
             (''k2'', ''file.gml:42''), (''b'', ''other.gml:42'')] 0 = Inr ps
        \<and> ps ! 1 = (1, ''file.gml'', ''42_1'', ''k1'')
        \<and> ps ! 2 = (2, ''file.gml'', ''42_2'', ''k2''))"
  using same_line_tokens [of
    "[(''a'', ''file.gml:7''), (''k1'', ''file.gml:42''), (''k2'', ''file.gml:42''), (''b'', ''other.gml:42'')]"
    "[(''a'', ''file.gml:7'')]" "''k1''" "[]" "''k2''" "[(''b'', ''other.gml:42'')]"]
  by (simp add: numeral_2_eq_2)

theorem same_line_tokens_counterexample:
  "positions (count_dups (map snd [(''k1'', ''file.gml:42''), (''k2'', ''file.gml:42'')]) Map.empty)
     [(''k1'', ''file.gml:42''), (''k2'', ''file.gml:42'')] 0 =
     Inr [(1, ''file.gml'', ''42_1'', ''k1''), (2, ''file.gml'', ''42_2'', ''k2'')]
   \<and> build_sourcemap [(''k1'', ''file.gml:42''), (''k2'', ''file.gml:42'')] =
       Inr [(''file.gml'', [(''42_1'', ''k1''), (''42_2'', ''k2'')])]
   \<and> build_sourcemap [(''k1'', ''file.gml:42''), (''k2'', ''file.gml:42'')] \<noteq>
       Inr [(''file.gml'', [(''42'', ''k1''), (''42_1'', ''k2'')])]"
  by (simp add: build_sourcemap_def locate_def store_def sort_sourcemap_def dict_of_def dict_merge_def
      smartsort_def isdigit_def rjust_def str_nat.simps digit_char_def eval_nat_numeral)

subsection \<open>A collision of position tokens\<close>

lemmas split_eval =
  split_dump_def CHAPTERS_def LANGS_def split_chapter_def split_lang_def
  build_sourcemap_def locate_def store_def sort_sourcemap_def dict_of_def dict_merge_def
  smartsort_def isdigit_def rjust_def str_nat.simps digit_char_def eval_nat_numeral
  sourcemap_json_def dict2file_def rmfile_def put_object_def exists_def ch_pwd_def PWD_def obj_name_def
  removesuffix_def lookup_string_def

text \<open>
  C9. For the entries k1 -> "f:10", k2 -> "f:20", k3 -> "f:10" of chapter 1, in this order,
  k1 and k3 both get the token "10_1": the source map of file "f" keeps k3 under "10_1"
  and loses k1, the per-file objects hold k3 and k2 only, and k1 is written to the orphan
  object alone.
\<close>

theorem token_collision:
  "positions (count_dups (map snd [(''k1'', ''f:10''), (''k2'', ''f:20''), (''k3'', ''f:10'')]) Map.empty)
     [(''k1'', ''f:10''), (''k2'', ''f:20''), (''k3'', ''f:10'')] 0 =
     Inr [(1, ''f'', ''10_1'', ''k1''), (0, ''f'', ''20'', ''k2''), (1, ''f'', ''10_1'', ''k3'')]
   \<and> split_dump
     [(''1'', [(''en'', [(''k1'', JStr ''a''), (''k2'', JStr ''b''), (''k3'', JStr ''c'')]),
               (''ja'', [(''k1'', JStr ''x''), (''k2'', JStr ''y''), (''k3'', JStr ''z'')])]),
      (''2'', [(''en'', []), (''ja'', [])]),
      (''3'', [(''en'', []), (''ja'', [])]),
      (''4'', [(''en'', []), (''ja'', [])])]
     [(''1'', [(''k1'', ''f:10''), (''k2'', ''f:20''), (''k3'', ''f:10'')]),
      (''2'', []), (''3'', []), (''4'', [])]
     [] =
     Inr [([''.'', ''chapter1'', ''sourcemap.json''],
             [(''f'', JObj [(''10_1'', JStr ''k3''), (''20'', JStr ''k2'')])]),
          ([''.'', ''chapter1'', ''en'', ''obj'', ''f.json''],
             [(''k3'', JStr ''c''), (''k2'', JStr ''b'')]),
          ([''.'', ''chapter1'', ''en'', ''obj'', ''orphan.json''], [(''k1'', JStr ''a'')]),
          ([''.'', ''chapter1'', ''ja'', ''obj'', ''f.json''],
             [(''k3'', JStr ''z''), (''k2'', JStr ''y'')]),
          ([''.'', ''chapter1'', ''ja'', ''obj'', ''orphan.json''], [(''k1'', JStr ''x'')]),
          ([''.'', ''chapter2'', ''sourcemap.json''], []),
          ([''.'', ''chapter3'', ''sourcemap.json''], []),
          ([''.'', ''chapter4'', ''sourcemap.json''], [])]"
  by (simp add: split_eval)

subsection \<open>The per-file objects and the orphan object\<close>

lemma update_fresh: "k \<notin> fst ` set al \<Longrightarrow> AList.update k v al = al @ [(k, v)]"
  by (induction al) auto

lemma fold_update_fresh:
  "distinct (map fst xs) \<Longrightarrow> fst ` set xs \<inter> fst ` set acc = {} \<Longrightarrow>
   fold (\<lambda>(k, v). AList.update k v) xs acc = acc @ xs"
proof (induction xs arbitrary: acc)
  case Nil
  show ?case by simp
next
  case (Cons x xs)
  obtain k v where x: "x = (k, v)" by (cases x)
  have fresh: "k \<notin> fst ` set acc" using Cons.prems(2) x by auto
  have "fold (\<lambda>(k, v). AList.update k v) xs (acc @ [(k, v)]) = (acc @ [(k, v)]) @ xs"
    using Cons.prems x by (intro Cons.IH) auto
  then show ?case using fresh x by (simp add: update_fresh)
qed

lemma dict_of_distinct: "distinct (map fst xs) \<Longrightarrow> dict_of xs = xs"
  using fold_update_fresh [of xs "[]"] by (simp add: dict_of_def dict_merge_def)

lemma values_update:
  "k \<notin> set (map snd m) \<Longrightarrow> distinct (map snd m) \<Longrightarrow>
   distinct (map snd (AList.update l k m)) \<and>
   set (map snd (AList.update l k m)) \<subseteq> insert k (set (map snd m))"
  by (induction m) auto

lemma sm_values_Cons: "sm_values ((f, m) # sm) = map snd m @ sm_values sm"
  by (simp add: sm_values_def)

lemma sm_values_append: "sm_values (sm @ sm') = sm_values sm @ sm_values sm'"
  by (simp add: sm_values_def)

lemma sm_values_map_entry:
  "distinct (sm_values sm) \<Longrightarrow> k \<notin> set (sm_values sm) \<Longrightarrow>
   distinct (sm_values (AList.map_entry f (AList.update l k) sm)) \<and>
   set (sm_values (AList.map_entry f (AList.update l k) sm)) \<subseteq> insert k (set (sm_values sm))"
proof (induction sm)
  case Nil
  show ?case by (simp add: sm_values_def)
next
  case (Cons e sm)
  obtain f' m where e: "e = (f', m)" by (cases e)
  show ?case
  proof (cases "f = f'")
    case True
    have "distinct (map snd m)" "k \<notin> set (map snd m)"
      using Cons.prems e by (simp_all add: sm_values_Cons)
    from values_update [OF this(2) this(1), of l]
    show ?thesis using True e Cons.prems by (auto simp add: sm_values_Cons)
  next
    case False
    have "distinct (sm_values sm)" "k \<notin> set (sm_values sm)"
      using Cons.prems e by (simp_all add: sm_values_Cons)
    from Cons.IH [OF this]
    show ?thesis using False e Cons.prems by (auto simp add: sm_values_Cons)
  qed
qed

lemma store_alt:
  "store f l k sm =
     AList.map_entry f (AList.update l k) (if f \<in> fst ` set sm then sm else sm @ [(f, [])])"
  by (simp add: store_def map_of_eq_None_iff update_fresh)

lemma sm_values_store:
  "distinct (sm_values sm) \<Longrightarrow> k \<notin> set (sm_values sm) \<Longrightarrow>
   distinct (sm_values (store f l k sm)) \<and>
   set (sm_values (store f l k sm)) \<subseteq> insert k (set (sm_values sm))"
proof -
  assume d: "distinct (sm_values sm)" and k: "k \<notin> set (sm_values sm)"
  have v: "sm_values (sm @ [(f, [])]) = sm_values sm" by (simp add: sm_values_def)
  show ?thesis
  proof (cases "f \<in> fst ` set sm")
    case True
    then show ?thesis using sm_values_map_entry [OF d k, of f l] by (simp add: store_alt)
  next
    case False
    then show ?thesis
      using sm_values_map_entry [of "sm @ [(f, [])]" k f l] d k by (simp add: store_alt v)
  qed
qed

lemma tokens_map_entry:
  "\<forall>(f, m) \<in> set sm. distinct (map fst m) \<Longrightarrow>
   \<forall>(f, m) \<in> set (AList.map_entry f' (AList.update l k) sm). distinct (map fst m)"
  by (induction sm) (auto simp add: distinct_update)

lemma tokens_store:
  "\<forall>(f, m) \<in> set sm. distinct (map fst m) \<Longrightarrow>
   \<forall>(f, m) \<in> set (store f' l k sm). distinct (map fst m)"
proof -
  assume a: "\<forall>(f, m) \<in> set sm. distinct (map fst m)"
  then have b: "\<forall>(f, m) \<in> set (sm @ [(f', [])]). distinct (map fst m)" by simp
  show ?thesis
    using tokens_map_entry [OF a, of f' l k] tokens_map_entry [OF b, of f' l k]
    by (simp add: store_alt)
qed

lemma rebuild_values:
  "rebuild dm kvs (c, sm) = Inr (c', sm') \<Longrightarrow> distinct (map fst kvs) \<Longrightarrow>
   set (map fst kvs) \<inter> set (sm_values sm) = {} \<Longrightarrow> distinct (sm_values sm) \<Longrightarrow>
   \<forall>(f, m) \<in> set sm. distinct (map fst m) \<Longrightarrow>
   distinct (sm_values sm') \<and> set (sm_values sm') \<subseteq> set (sm_values sm) \<union> set (map fst kvs)
   \<and> (\<forall>(f, m) \<in> set sm'. distinct (map fst m))"
proof (induction kvs arbitrary: c sm)
  case Nil
  then show ?case by simp
next
  case (Cons kv kvs)
  obtain k v where kv: "kv = (k, v)" by (cases kv)
  from Cons.prems(1) kv obtain c1 f l where
    loc: "locate dm c v = Inr (c1, f, l)"
    and rest: "rebuild dm kvs (c1, store f l k sm) = Inr (c', sm')"
    by (auto split: sum.splits)
  have k: "k \<notin> set (sm_values sm)" using Cons.prems(3) kv by auto
  note st = sm_values_store [OF Cons.prems(4) k, of f l]
  have d: "distinct (map fst kvs)" and knew: "k \<notin> set (map fst kvs)"
    using Cons.prems(2) kv by simp_all
  have disj: "set (map fst kvs) \<inter> set (sm_values (store f l k sm)) = {}"
    using st Cons.prems(3) knew kv by auto
  have tok: "\<forall>(f, m) \<in> set (store f l k sm). distinct (map fst m)"
    using tokens_store [OF Cons.prems(5)] .
  from Cons.IH [OF rest d disj _ tok] st
  show ?case using kv by auto
qed

lemma sort_key_fst_distinct:
  "distinct (map fst m) \<Longrightarrow> distinct (map fst (sort_key g m))"
  by (simp add: distinct_map)

lemma sort_key_snd:
  "distinct (map snd m) \<Longrightarrow> distinct (map snd (sort_key g m))"
  "set (map snd (sort_key g m)) = set (map snd m)"
  by (simp_all add: distinct_map)

lemma sm_values_sorted:
  "\<forall>(f, m) \<in> set sm. distinct (map fst m) \<Longrightarrow> distinct (sm_values sm) \<Longrightarrow>
   distinct (sm_values (sort_sourcemap sm)) \<and>
   set (sm_values (sort_sourcemap sm)) = set (sm_values sm)"
proof (induction sm)
  case Nil
  show ?case by (simp add: sort_sourcemap_def sm_values_def)
next
  case (Cons e sm)
  obtain f m where e: "e = (f, m)" by (cases e)
  have dm: "distinct (map fst m)" using Cons.prems(1) e by simp
  have d1: "dict_of (sort_key smartsort m) = sort_key smartsort m"
    using dict_of_distinct [OF sort_key_fst_distinct [OF dm]] .
  have eq: "sort_sourcemap ((f, m) # sm) = (f, sort_key smartsort m) # sort_sourcemap sm"
    by (simp add: sort_sourcemap_def d1)
  have IH: "distinct (sm_values (sort_sourcemap sm)) \<and>
      set (sm_values (sort_sourcemap sm)) = set (sm_values sm)"
    using Cons.IH Cons.prems e by (simp add: sm_values_Cons)
  have dv: "distinct (map snd m)" using Cons.prems(2) e by (simp add: sm_values_Cons)
  show ?case
    using IH sort_key_snd(1) [OF dv, of smartsort] sort_key_snd(2) [of smartsort m] Cons.prems(2) e
    by (simp add: eq sm_values_Cons)
qed

lemma build_sourcemap_values:
  assumes "build_sourcemap entries = Inr sm" and "distinct (map fst entries)"
  shows "distinct (sm_values sm)" and "set (sm_values sm) \<subseteq> set (map fst entries)"
proof -
  from assms(1) obtain c sm0 where
    rb: "rebuild (count_dups (map snd entries) Map.empty) entries (0, []) = Inr (c, sm0)"
    and sm: "sm = sort_sourcemap sm0"
    by (auto simp add: build_sourcemap_def split: sum.splits)
  have r: "distinct (sm_values sm0) \<and> set (sm_values sm0) \<subseteq> set (sm_values []) \<union> set (map fst entries)
     \<and> (\<forall>(f, m) \<in> set sm0. distinct (map fst m))"
    by (rule rebuild_values [OF rb assms(2)]) (simp_all add: sm_values_def)
  then have s: "distinct (sm_values (sort_sourcemap sm0)) \<and>
      set (sm_values (sort_sourcemap sm0)) = set (sm_values sm0)"
    using sm_values_sorted [of sm0] by blast
  show "distinct (sm_values sm)" using s sm by simp
  show "set (sm_values sm) \<subseteq> set (map fst entries)" using s r sm by (simp add: sm_values_def)
qed

lemma collect_strings_keys:
  "fst ` set (fst (collect look m (ls, obj))) =
     fst ` set ls \<union> {v \<in> set (map snd m). look v \<noteq> None}"
proof (induction m arbitrary: ls obj)
  case Nil
  show ?case by simp
next
  case (Cons e m)
  obtain k v where e: "e = (k, v)" by (cases e)
  show ?case
    by (cases "look v") (auto simp add: e Cons.IH dom_update)
qed

lemma collect_object_keys:
  "distinct (map snd m) \<Longrightarrow> set (map snd m) \<inter> fst ` set obj = {} \<Longrightarrow>
   map fst (snd (collect look m (ls, obj))) =
     map fst obj @ filter (\<lambda>v. look v \<noteq> None) (map snd m)"
proof (induction m arbitrary: ls obj)
  case Nil
  show ?case by simp
next
  case (Cons e m)
  obtain k v where e: "e = (k, v)" by (cases e)
  have d: "distinct (map snd m)" and vm: "v \<notin> set (map snd m)" and vo: "v \<notin> fst ` set obj"
    and mo: "set (map snd m) \<inter> fst ` set obj = {}"
    using Cons.prems e by auto
  show ?case
  proof (cases "look v")
    case None
    then show ?thesis using Cons.IH [OF d mo] e by simp
  next
    case (Some s)
    have "set (map snd m) \<inter> fst ` set (AList.update v s obj) = {}"
      using mo vm by (auto simp add: dom_update)
    from Cons.IH [OF d this]
    show ?thesis using Some e vo by (simp add: update_fresh)
  qed
qed

lemma split_files_objects:
  "split_files look obj_dir sm (ls, fs) =
     (strings_used look sm ls, fold (put_object obj_dir) (objects look sm ls) fs)"
proof (induction sm arbitrary: ls fs)
  case Nil
  show ?case by simp
next
  case (Cons e sm)
  obtain f m where e: "e = (f, m)" by (cases e)
  show ?case by (simp add: e Cons.IH case_prod_beta)
qed

lemma strings_used_keys:
  "fst ` set (strings_used look sm ls) =
     fst ` set ls \<union> {v \<in> set (sm_values sm). look v \<noteq> None}"
proof (induction sm arbitrary: ls)
  case Nil
  show ?case by (simp add: sm_values_def)
next
  case (Cons e sm)
  obtain f m where e: "e = (f, m)" by (cases e)
  show ?case
    by (auto simp add: e Cons.IH collect_strings_keys sm_values_Cons)
qed

lemma objects_keys:
  "distinct (sm_values sm) \<Longrightarrow>
   concat (map (\<lambda>(name, obj). map fst obj) (objects look sm ls)) =
     filter (\<lambda>v. look v \<noteq> None) (sm_values sm)"
proof (induction sm arbitrary: ls)
  case Nil
  show ?case by (simp add: sm_values_def)
next
  case (Cons e sm)
  obtain f m where e: "e = (f, m)" by (cases e)
  have d: "distinct (map snd m)" and ds: "distinct (sm_values sm)"
    using Cons.prems e by (simp_all add: sm_values_Cons)
  have "map fst (snd (collect look m (ls, []))) = filter (\<lambda>v. look v \<noteq> None) (map snd m)"
    using collect_object_keys [OF d, of "[]" look ls] by simp
  then show ?case
    using Cons.IH [OF ds] by (simp add: e sm_values_Cons case_prod_beta)
qed

lemma orphans_keys:
  "fst ` set (orphans ls strs acc) =
     fst ` set acc \<union> {k \<in> fst ` set strs. k \<notin> fst ` set ls \<and> k \<noteq> ''date''}"
proof (induction strs arbitrary: acc)
  case Nil
  show ?case by simp
next
  case (Cons e strs)
  obtain k s where e: "e = (k, s)" by (cases e)
  show ?case
    by (auto simp add: e Cons.IH dom_update map_of_eq_None_iff)
qed

lemma foldM_step:
  "foldM f xs s = Inr s' \<Longrightarrow> x \<in> set xs \<Longrightarrow> \<exists>s1 s2. f x s1 = Inr s2"
proof (induction xs arbitrary: s)
  case Nil
  then show ?case by simp
next
  case (Cons y xs)
  from Cons.prems(1) obtain s1 where y: "f y s = Inr s1" and rest: "foldM f xs s1 = Inr s'"
    by (auto split: sum.splits)
  show ?case
  proof (cases "x = y")
    case True
    then show ?thesis using y by blast
  next
    case False
    then show ?thesis using Cons.IH [OF rest] Cons.prems(2) by simp
  qed
qed

lemma split_dump_inputs:
  assumes "split_dump raw_lang raw_sourcemap fs = Inr fs'"
    and "chapter \<in> set CHAPTERS" and "lang \<in> set LANGS"
    and "map_of raw_sourcemap chapter = Some entries"
  shows "\<exists>sm langs strs. build_sourcemap entries = Inr sm \<and>
     map_of raw_lang chapter = Some langs \<and> map_of langs lang = Some strs \<and>
     lookup_string raw_lang chapter lang = map_of strs"
proof -
  from foldM_step [OF assms(1) [unfolded split_dump_def] assms(2)]
  obtain s1 s2 where ch: "split_chapter raw_lang raw_sourcemap chapter s1 = Inr s2" by blast
  from ch assms(4) obtain sm s3 where
    sm: "build_sourcemap entries = Inr sm"
    and langs: "foldM (split_lang raw_lang chapter sm) LANGS s3 = Inr s2"
    by (auto simp add: split_chapter_def split: sum.splits)
  from foldM_step [OF langs assms(3)]
  obtain s4 s5 where "split_lang raw_lang chapter sm lang s4 = Inr s5" by blast
  then obtain langs strs where
    l: "map_of raw_lang chapter = Some langs" "map_of langs lang = Some strs"
    by (auto simp add: split_lang_def Let_def case_prod_beta split: option.splits)
  have "lookup_string raw_lang chapter lang = map_of strs"
    by (rule ext) (simp add: lookup_string_def l)
  then show ?thesis using sm l by blast
qed

lemma map_of_dict2file: "map_of (dict2file d p fs) = (map_of fs)(p \<mapsto> d)"
  by (simp add: dict2file_def update_conv')

lemma map_of_rmfile: "map_of (rmfile p fs) = (map_of fs)(p := None)"
  by (auto simp add: rmfile_def exists_def delete_conv' fun_eq_iff)

lemma map_of_put_object:
  "map_of (put_object dir (name, obj) fs) =
     (map_of fs)(dir @ [name] := (if obj = [] then None else Some obj))"
  by (simp add: put_object_def map_of_dict2file map_of_rmfile)

lemma fold_put_object_outside:
  "p = [] \<or> butlast p \<noteq> dir \<Longrightarrow> map_of (fold (put_object dir) objs fs) p = map_of fs p"
proof (induction objs arbitrary: fs)
  case Nil
  show ?case by simp
next
  case (Cons e objs)
  obtain name obj where e: "e = (name, obj)" by (cases e)
  have "p \<noteq> dir @ [name]" using Cons.prems by auto
  then show ?case using Cons.IH [OF Cons.prems] by (simp add: e map_of_put_object)
qed

lemma fold_put_object_inside:
  "distinct (map fst objs) \<Longrightarrow>
   map_of (fold (put_object dir) objs fs) (dir @ [n]) =
     (case map_of objs n of
        None \<Rightarrow> map_of fs (dir @ [n])
      | Some obj \<Rightarrow> if obj = [] then None else Some obj)"
proof (induction objs arbitrary: fs)
  case Nil
  show ?case by simp
next
  case (Cons e objs)
  obtain name obj where e: "e = (name, obj)" by (cases e)
  have d: "distinct (map fst objs)" and fresh: "map_of objs name = None"
    using Cons.prems e by (simp_all add: map_of_eq_None_iff)
  show ?case
    using Cons.IH [OF d, of "put_object dir (name, obj) fs"] fresh
    by (auto simp add: e map_of_put_object split: option.splits)
qed

lemma objects_names:
  "map fst (objects look sm ls) = map (\<lambda>(filename, m). obj_name filename) sm"
proof (induction sm arbitrary: ls)
  case Nil
  show ?case by simp
next
  case (Cons e sm)
  obtain f m where e: "e = (f, m)" by (cases e)
  show ?case by (simp add: e Cons.IH case_prod_beta)
qed

lemma split_lang_files:
  assumes "split_lang raw_lang chapter sm lang fs = Inr fs'"
    and "map_of raw_lang chapter = Some langs" and "map_of langs lang = Some strs"
  shows "fs' =
     (let dir = ch_pwd chapter @ [lang, ''obj''];
          look = lookup_string raw_lang chapter lang;
          lang_orphan = orphans (strings_used look sm []) strs [];
          fs1 = fold (put_object dir) (objects look sm []) fs
      in if lang_orphan \<noteq> [] then dict2file lang_orphan (dir @ [''orphan.json'']) fs1
         else rmfile (dir @ [''orphan.json'']) fs1)"
  using assms by (simp add: split_lang_def split_files_objects Let_def split: if_splits)

lemma split_lang_outside:
  assumes "split_lang raw_lang chapter sm lang fs = Inr fs'"
    and "p = [] \<or> butlast p \<noteq> ch_pwd chapter @ [lang, ''obj'']"
  shows "map_of fs' p = map_of fs p"
proof -
  from assms(1) obtain langs strs where
    l: "map_of raw_lang chapter = Some langs" "map_of langs lang = Some strs"
    by (auto simp add: split_lang_def Let_def case_prod_beta split: option.splits)
  have ne: "p \<noteq> (ch_pwd chapter @ [lang, ''obj'']) @ [''orphan.json'']"
    using assms(2) by (auto simp add: butlast_append)
  show ?thesis
    unfolding split_lang_files [OF assms(1) l] Let_def
    using ne fold_put_object_outside [OF assms(2)]
    by (simp add: map_of_dict2file map_of_rmfile)
qed

lemma foldM_frame:
  assumes "\<And>x s t. x \<in> set xs \<Longrightarrow> f x s = Inr t \<Longrightarrow> Q t = Q s"
    and "foldM f xs s = Inr t"
  shows "Q t = Q s"
  using assms
proof (induction xs arbitrary: s)
  case Nil
  then show ?case by simp
next
  case (Cons x xs)
  from Cons.prems(2) obtain s1 where x: "f x s = Inr s1" and rest: "foldM f xs s1 = Inr t"
    by (auto split: sum.splits)
  have "Q t = Q s1"
  proof (rule Cons.IH [OF _ rest])
    fix y u v
    assume "y \<in> set xs" and "f y u = Inr v"
    then show "Q v = Q u" using Cons.prems(1) [of y u v] by simp
  qed
  moreover have "Q s1 = Q s" using Cons.prems(1) [OF _ x] by simp
  ultimately show ?case by simp
qed

lemma foldM_split:
  assumes "foldM f xs s = Inr t" and "x \<in> set xs" and "distinct xs"
  shows "\<exists>ys zs s1 s2. xs = ys @ x # zs \<and> x \<notin> set ys \<and> x \<notin> set zs \<and>
     foldM f ys s = Inr s1 \<and> f x s1 = Inr s2 \<and> foldM f zs s2 = Inr t"
  using assms
proof (induction xs arbitrary: s)
  case Nil
  then show ?case by simp
next
  case (Cons y xs)
  from Cons.prems(1) obtain s1 where y: "f y s = Inr s1" and rest: "foldM f xs s1 = Inr t"
    by (auto split: sum.splits)
  show ?case
  proof (cases "x = y")
    case True
    have "y # xs = [] @ x # xs \<and> x \<notin> set [] \<and> x \<notin> set xs \<and>
       foldM f [] s = Inr s \<and> f x s = Inr s1 \<and> foldM f xs s1 = Inr t"
      using True y rest Cons.prems(3) by simp
    then show ?thesis by blast
  next
    case False
    then have "x \<in> set xs" and "distinct xs" using Cons.prems by simp_all
    from Cons.IH [OF rest this] obtain ys zs t1 t2 where
      h: "xs = ys @ x # zs" "x \<notin> set ys" "x \<notin> set zs"
         "foldM f ys s1 = Inr t1" "f x t1 = Inr t2" "foldM f zs t2 = Inr t"
      by blast
    have "y # xs = (y # ys) @ x # zs \<and> x \<notin> set (y # ys) \<and> x \<notin> set zs \<and>
       foldM f (y # ys) s = Inr t1 \<and> f x t1 = Inr t2 \<and> foldM f zs t2 = Inr t"
      using h False y by simp
    then show ?thesis by blast
  qed
qed

lemma obj_dir_inj:
  "(ch_pwd c @ [l, ''obj''] = ch_pwd c' @ [l', ''obj'']) = (c = c' \<and> l = l')"
  by (auto simp add: ch_pwd_def PWD_def)

lemma split_chapter_langs:
  assumes "split_chapter raw_lang raw_sourcemap chapter fs = Inr fs'"
    and "map_of raw_sourcemap chapter = Some entries" and "build_sourcemap entries = Inr sm"
  shows "foldM (split_lang raw_lang chapter sm) LANGS
     (dict2file (sourcemap_json sm) (ch_pwd chapter @ [''sourcemap.json'']) fs) = Inr fs'"
  using assms by (simp add: split_chapter_def)

lemma split_chapter_outside:
  assumes "split_chapter raw_lang raw_sourcemap c' fs = Inr fs'" and "c' \<noteq> c"
  shows "map_of fs' ((ch_pwd c @ [l, ''obj'']) @ [n]) = map_of fs ((ch_pwd c @ [l, ''obj'']) @ [n])"
proof -
  let ?p = "(ch_pwd c @ [l, ''obj'']) @ [n]"
  from assms(1) obtain entries sm where
    e: "map_of raw_sourcemap c' = Some entries" and sm: "build_sourcemap entries = Inr sm"
    by (auto simp add: split_chapter_def split: option.splits sum.splits)
  let ?fs1 = "dict2file (sourcemap_json sm) (ch_pwd c' @ [''sourcemap.json'']) fs"
  have run: "foldM (split_lang raw_lang c' sm) LANGS ?fs1 = Inr fs'"
    using split_chapter_langs [OF assms(1) e sm] .
  have step: "\<And>x s t. x \<in> set LANGS \<Longrightarrow> split_lang raw_lang c' sm x s = Inr t \<Longrightarrow>
      map_of t ?p = map_of s ?p"
  proof -
    fix x s t
    assume "split_lang raw_lang c' sm x s = Inr t"
    then show "map_of t ?p = map_of s ?p"
      by (rule split_lang_outside) (simp add: butlast_append obj_dir_inj assms(2) [symmetric])
  qed
  have "map_of fs' ?p = map_of ?fs1 ?p"
    by (rule foldM_frame [where Q = "\<lambda>s. map_of s ?p", OF step run])
  moreover have "map_of ?fs1 ?p = map_of fs ?p"
    by (simp add: map_of_dict2file ch_pwd_def PWD_def)
  ultimately show ?thesis by simp
qed

lemma split_dump_files:
  assumes "split_dump raw_lang raw_sourcemap fs = Inr fs'"
    and "chapter \<in> set CHAPTERS" and "lang \<in> set LANGS"
    and "map_of raw_sourcemap chapter = Some entries"
    and "build_sourcemap entries = Inr sm"
    and "map_of raw_lang chapter = Some langs" and "map_of langs lang = Some strs"
  shows "\<exists>fs1 fs2. split_lang raw_lang chapter sm lang fs1 = Inr fs2 \<and>
     (\<forall>n. map_of fs1 ((ch_pwd chapter @ [lang, ''obj'']) @ [n]) =
          map_of fs ((ch_pwd chapter @ [lang, ''obj'']) @ [n])) \<and>
     (\<forall>n. map_of fs' ((ch_pwd chapter @ [lang, ''obj'']) @ [n]) =
          map_of fs2 ((ch_pwd chapter @ [lang, ''obj'']) @ [n]))"
proof -
  let ?dir = "ch_pwd chapter @ [lang, ''obj'']"
  have dc: "distinct CHAPTERS" and dl: "distinct LANGS" by (simp_all add: CHAPTERS_def LANGS_def)
  from foldM_split [OF assms(1) [unfolded split_dump_def] assms(2) dc]
  obtain ys zs s1 s2 where
    c: "chapter \<notin> set ys" "chapter \<notin> set zs"
       "foldM (split_chapter raw_lang raw_sourcemap) ys fs = Inr s1"
       "split_chapter raw_lang raw_sourcemap chapter s1 = Inr s2"
       "foldM (split_chapter raw_lang raw_sourcemap) zs s2 = Inr fs'"
    by blast
  have before: "map_of s1 (?dir @ [n]) = map_of fs (?dir @ [n])" for n
    by (rule foldM_frame [where Q = "\<lambda>s. map_of s (?dir @ [n])", OF _ c(3)])
       (rule split_chapter_outside, assumption, use c(1) in blast)
  have after: "map_of fs' (?dir @ [n]) = map_of s2 (?dir @ [n])" for n
    by (rule foldM_frame [where Q = "\<lambda>s. map_of s (?dir @ [n])", OF _ c(5)])
       (rule split_chapter_outside, assumption, use c(2) in blast)
  let ?s1 = "dict2file (sourcemap_json sm) (ch_pwd chapter @ [''sourcemap.json'']) s1"
  have first: "map_of ?s1 (?dir @ [n]) = map_of s1 (?dir @ [n])" for n
    by (simp add: map_of_dict2file ch_pwd_def PWD_def)
  from foldM_split [OF split_chapter_langs [OF c(4) assms(4,5)] assms(3) dl]
  obtain ys' zs' t1 t2 where
    l: "lang \<notin> set ys'" "lang \<notin> set zs'"
       "foldM (split_lang raw_lang chapter sm) ys' ?s1 = Inr t1"
       "split_lang raw_lang chapter sm lang t1 = Inr t2"
       "foldM (split_lang raw_lang chapter sm) zs' t2 = Inr s2"
    by blast
  have other: "\<And>x s t n. split_lang raw_lang chapter sm x s = Inr t \<Longrightarrow> x \<noteq> lang \<Longrightarrow>
      map_of t (?dir @ [n]) = map_of s (?dir @ [n])"
  proof -
    fix x s t n
    assume "split_lang raw_lang chapter sm x s = Inr t" and "x \<noteq> lang"
    from this(1) show "map_of t (?dir @ [n]) = map_of s (?dir @ [n])"
      by (rule split_lang_outside) (simp add: butlast_append obj_dir_inj \<open>x \<noteq> lang\<close> [symmetric])
  qed
  have lbefore: "map_of t1 (?dir @ [n]) = map_of ?s1 (?dir @ [n])" for n
    by (rule foldM_frame [where Q = "\<lambda>s. map_of s (?dir @ [n])", OF _ l(3)])
       (rule other, assumption, use l(1) in blast)
  have lafter: "map_of s2 (?dir @ [n]) = map_of t2 (?dir @ [n])" for n
    by (rule foldM_frame [where Q = "\<lambda>s. map_of s (?dir @ [n])", OF _ l(5)])
       (rule other, assumption, use l(2) in blast)
  have "\<forall>n. map_of t1 (?dir @ [n]) = map_of fs (?dir @ [n])"
    using lbefore first before by simp
  moreover have "\<forall>n. map_of fs' (?dir @ [n]) = map_of t2 (?dir @ [n])"
    using after lafter by simp
  ultimately show ?thesis using l(4) by blast
qed

lemma concat_distinct_disjoint:
  "distinct (concat (map f xs)) \<Longrightarrow> x \<in> set xs \<Longrightarrow> y \<in> set xs \<Longrightarrow> g x \<noteq> g y \<Longrightarrow>
   set (f x) \<inter> set (f y) = {}"
proof (induction xs)
  case Nil
  then show ?case by simp
next
  case (Cons a xs)
  have d: "distinct (concat (map f xs))"
    and a: "set (f a) \<inter> (\<Union>z \<in> set xs. set (f z)) = {}"
    using Cons.prems(1) by auto
  consider "x = a" "y \<in> set xs" | "y = a" "x \<in> set xs" | "x \<in> set xs" "y \<in> set xs"
    using Cons.prems by auto
  then show ?case
  proof cases
    case 1
    then show ?thesis using a by blast
  next
    case 2
    then show ?thesis using a by blast
  next
    case 3
    then show ?thesis using Cons.IH [OF d] Cons.prems(4) by simp
  qed
qed

text \<open>
  C1, as amended. Let \<^verbatim>\<open>split_dump\<close> run to its end, and take a chapter, whose raw
  source map is a dictionary (its keys are distinct), and a language. The chapter source
  map was built and the raw string map of the chapter and language exists. The pass makes
  one object per file of the chapter source map, named after the file, and the orphan
  object. The keys of these objects are, "date" set aside, the keys of the raw string
  map, "date" set aside, and the keys of the per-file objects, listed object after
  object, have no repetition. When the object file names are pairwise distinct and none is
  \<^verbatim>\<open>orphan.json\<close>, this is what the object directory holds after the run: each per-file
  object is in the file of its name, the orphan object is in \<^verbatim>\<open>orphan.json\<close>, a file
  whose object is empty is not there, and every other file of the directory is as it was
  before the run; the keys in these files are, "date" set aside, the keys of the raw
  string map, and no key is in two per-file object files.
\<close>

theorem split_keys_partition:
  assumes "split_dump raw_lang raw_sourcemap fs = Inr fs'"
    and "chapter \<in> set CHAPTERS" and "lang \<in> set LANGS"
    and "map_of raw_sourcemap chapter = Some entries"
    and "distinct (map fst entries)"
  shows "\<exists>sm langs strs objs lang_orphan.
     build_sourcemap entries = Inr sm \<and>
     map_of raw_lang chapter = Some langs \<and> map_of langs lang = Some strs \<and>
     objs = objects (lookup_string raw_lang chapter lang) sm [] \<and>
     lang_orphan = orphans (strings_used (lookup_string raw_lang chapter lang) sm []) strs [] \<and>
     map fst objs = map (\<lambda>(filename, m). obj_name filename) sm \<and>
     (\<Union>(name, obj) \<in> set objs. keys obj) \<union> keys lang_orphan - {''date''}
       = keys strs - {''date''} \<and>
     distinct (concat (map (\<lambda>(name, obj). map fst obj) objs)) \<and>
     (distinct (map fst objs) \<and> ''orphan.json'' \<notin> fst ` set objs \<longrightarrow>
        (\<forall>(name, obj) \<in> set objs.
           map_of fs' ((ch_pwd chapter @ [lang, ''obj'']) @ [name]) =
             (if obj = [] then None else Some obj)) \<and>
        map_of fs' ((ch_pwd chapter @ [lang, ''obj'']) @ [''orphan.json'']) =
          (if lang_orphan = [] then None else Some lang_orphan) \<and>
        (\<forall>name. name \<notin> fst ` set objs \<and> name \<noteq> ''orphan.json'' \<longrightarrow>
           map_of fs' ((ch_pwd chapter @ [lang, ''obj'']) @ [name]) =
             map_of fs ((ch_pwd chapter @ [lang, ''obj'']) @ [name])) \<and>
        (\<Union>name \<in> insert ''orphan.json'' (fst ` set objs).
            keys (read_obj fs' ((ch_pwd chapter @ [lang, ''obj'']) @ [name]))) - {''date''}
          = keys strs - {''date''} \<and>
        (\<forall>n1 \<in> fst ` set objs. \<forall>n2 \<in> fst ` set objs. n1 \<noteq> n2 \<longrightarrow>
           keys (read_obj fs' ((ch_pwd chapter @ [lang, ''obj'']) @ [n1])) \<inter>
           keys (read_obj fs' ((ch_pwd chapter @ [lang, ''obj'']) @ [n2])) = {}))"
proof -
  from split_dump_inputs [OF assms(1-4)] obtain sm langs strs where
    sm: "build_sourcemap entries = Inr sm"
    and l: "map_of raw_lang chapter = Some langs" "map_of langs lang = Some strs"
    and look: "lookup_string raw_lang chapter lang = map_of strs"
    by blast
  let ?look = "lookup_string raw_lang chapter lang"
  let ?dir = "ch_pwd chapter @ [lang, ''obj'']"
  let ?objs = "objects ?look sm []"
  let ?orphan = "orphans (strings_used ?look sm []) strs []"
  have names: "map fst ?objs = map (\<lambda>(filename, m). obj_name filename) sm"
    by (rule objects_names)
  have d: "distinct (sm_values sm)" using build_sourcemap_values(1) [OF sm assms(5)] .
  have ok: "concat (map (\<lambda>(name, obj). map fst obj) ?objs) =
      filter (\<lambda>v. ?look v \<noteq> None) (sm_values sm)"
    using objects_keys [OF d] .
  have "(\<Union>(name, obj) \<in> set ?objs. keys obj) =
      set (concat (map (\<lambda>(name, obj). map fst obj) ?objs))"
    by (auto simp add: keys_def)
  then have u: "(\<Union>(name, obj) \<in> set ?objs. keys obj) =
      {v \<in> set (sm_values sm). ?look v \<noteq> None}"
    by (simp only: ok set_filter)
  have s: "keys (strings_used ?look sm []) = {v \<in> set (sm_values sm). ?look v \<noteq> None}"
    by (simp add: keys_def strings_used_keys)
  have o: "keys ?orphan =
      {k \<in> keys strs. k \<notin> {v \<in> set (sm_values sm). ?look v \<noteq> None} \<and> k \<noteq> ''date''}"
    using s by (simp add: keys_def orphans_keys)
  have inl: "?look v \<noteq> None \<longleftrightarrow> v \<in> keys strs" for v
    by (simp add: look keys_def map_of_eq_None_iff)
  have part: "(\<Union>(name, obj) \<in> set ?objs. keys obj) \<union> keys ?orphan - {''date''}
       = keys strs - {''date''}"
    unfolding u o inl by blast
  have dist: "distinct (concat (map (\<lambda>(name, obj). map fst obj) ?objs))"
    unfolding ok using d by simp
  have files: "(\<forall>(name, obj) \<in> set ?objs.
           map_of fs' (?dir @ [name]) = (if obj = [] then None else Some obj)) \<and>
        map_of fs' (?dir @ [''orphan.json'']) =
          (if ?orphan = [] then None else Some ?orphan) \<and>
        (\<forall>name. name \<notin> fst ` set ?objs \<and> name \<noteq> ''orphan.json'' \<longrightarrow>
           map_of fs' (?dir @ [name]) = map_of fs (?dir @ [name])) \<and>
        (\<Union>name \<in> insert ''orphan.json'' (fst ` set ?objs).
            keys (read_obj fs' (?dir @ [name]))) - {''date''}
          = keys strs - {''date''} \<and>
        (\<forall>n1 \<in> fst ` set ?objs. \<forall>n2 \<in> fst ` set ?objs. n1 \<noteq> n2 \<longrightarrow>
           keys (read_obj fs' (?dir @ [n1])) \<inter> keys (read_obj fs' (?dir @ [n2])) = {})"
    if dn: "distinct (map fst ?objs)" and no: "''orphan.json'' \<notin> fst ` set ?objs"
  proof -
    from split_dump_files [OF assms(1-4) sm l] obtain t1 t2 where
      t: "split_lang raw_lang chapter sm lang t1 = Inr t2"
      and before: "\<And>n. map_of t1 (?dir @ [n]) = map_of fs (?dir @ [n])"
      and after: "\<And>n. map_of fs' (?dir @ [n]) = map_of t2 (?dir @ [n])"
      by blast
    let ?t = "fold (put_object ?dir) ?objs t1"
    have t2: "t2 = (if ?orphan \<noteq> [] then dict2file ?orphan (?dir @ [''orphan.json'']) ?t
         else rmfile (?dir @ [''orphan.json'']) ?t)"
      using split_lang_files [OF t l] by (simp add: Let_def)
    have at: "map_of fs' (?dir @ [n]) =
        (if n = ''orphan.json'' then (if ?orphan = [] then None else Some ?orphan)
         else case map_of ?objs n of
                None \<Rightarrow> map_of fs (?dir @ [n])
              | Some obj \<Rightarrow> if obj = [] then None else Some obj)" for n
      unfolding after t2
      using fold_put_object_inside [OF dn, of ?dir t1 n] before [of n]
      by (simp add: map_of_dict2file map_of_rmfile split: option.splits)
    have obj_at: "map_of fs' (?dir @ [name]) = (if obj = [] then None else Some obj)"
      if "(name, obj) \<in> set ?objs" for name obj
    proof -
      have "map_of ?objs name = Some obj" using that dn by simp
      moreover have "name \<noteq> ''orphan.json''" using that no by force
      ultimately show ?thesis using at [of name] by simp
    qed
    have orphan_at: "map_of fs' (?dir @ [''orphan.json'']) =
        (if ?orphan = [] then None else Some ?orphan)"
      using at [of "''orphan.json''"] by simp
    have other_at: "map_of fs' (?dir @ [name]) = map_of fs (?dir @ [name])"
      if "name \<notin> fst ` set ?objs" "name \<noteq> ''orphan.json''" for name
    proof -
      have "map_of ?objs name = None" using that(1) by (simp add: map_of_eq_None_iff)
      then show ?thesis using that(2) at [of name] by simp
    qed
    have read_at: "read_obj fs' (?dir @ [name]) = obj" if "(name, obj) \<in> set ?objs" for name obj
      using obj_at [OF that] by (simp add: read_obj_def)
    have read_orphan: "read_obj fs' (?dir @ [''orphan.json'']) = ?orphan"
      using orphan_at by (simp add: read_obj_def)
    have un0: "(\<Union>name \<in> fst ` set ?objs. keys (read_obj fs' (?dir @ [name]))) =
        (\<Union>(name, obj) \<in> set ?objs. keys obj)"
    proof (rule set_eqI)
      fix k
      show "k \<in> (\<Union>name \<in> fst ` set ?objs. keys (read_obj fs' (?dir @ [name]))) \<longleftrightarrow>
          k \<in> (\<Union>(name, obj) \<in> set ?objs. keys obj)"
      proof
        assume "k \<in> (\<Union>name \<in> fst ` set ?objs. keys (read_obj fs' (?dir @ [name])))"
        then obtain name obj where m: "(name, obj) \<in> set ?objs"
          and k: "k \<in> keys (read_obj fs' (?dir @ [name]))"
          by auto
        have "k \<in> keys obj" using k read_at [OF m] by simp
        then show "k \<in> (\<Union>(name, obj) \<in> set ?objs. keys obj)" using m by blast
      next
        assume "k \<in> (\<Union>(name, obj) \<in> set ?objs. keys obj)"
        then obtain name obj where m: "(name, obj) \<in> set ?objs" and k: "k \<in> keys obj"
          by auto
        have "k \<in> keys (read_obj fs' (?dir @ [name]))" using k read_at [OF m] by simp
        moreover have "name \<in> fst ` set ?objs" using m by force
        ultimately show "k \<in> (\<Union>name \<in> fst ` set ?objs. keys (read_obj fs' (?dir @ [name])))"
          by blast
      qed
    qed
    have "(\<Union>name \<in> insert ''orphan.json'' (fst ` set ?objs).
            keys (read_obj fs' (?dir @ [name]))) =
        (\<Union>(name, obj) \<in> set ?objs. keys obj) \<union> keys ?orphan"
      unfolding UN_insert un0 read_orphan by (rule Un_commute)
    then have un: "(\<Union>name \<in> insert ''orphan.json'' (fst ` set ?objs).
            keys (read_obj fs' (?dir @ [name]))) - {''date''} = keys strs - {''date''}"
      using part by simp
    have disj: "keys (read_obj fs' (?dir @ [n1])) \<inter> keys (read_obj fs' (?dir @ [n2])) = {}"
      if "n1 \<in> fst ` set ?objs" "n2 \<in> fst ` set ?objs" "n1 \<noteq> n2" for n1 n2
    proof -
      from that obtain o1 o2 where m: "(n1, o1) \<in> set ?objs" "(n2, o2) \<in> set ?objs" by auto
      have "(\<lambda>(name, obj). map fst obj) = (\<lambda>x :: string \<times> json dict. map fst (snd x))"
        by (rule ext) (simp add: case_prod_beta)
      then have dist': "distinct (concat (map (\<lambda>x. map fst (snd x)) ?objs))"
        using dist by simp
      have "set (map fst (snd (n1, o1))) \<inter> set (map fst (snd (n2, o2))) = {}"
        by (rule concat_distinct_disjoint [where f = "\<lambda>x. map fst (snd x)" and g = fst and xs = ?objs])
           (use dist' m that(3) in simp_all)
      then show ?thesis using read_at [OF m(1)] read_at [OF m(2)] by (simp add: keys_def)
    qed
    have f1: "\<forall>(name, obj) \<in> set ?objs.
           map_of fs' (?dir @ [name]) = (if obj = [] then None else Some obj)"
    proof (rule ballI)
      fix x
      assume x: "x \<in> set ?objs"
      obtain name obj where e: "x = (name, obj)" by (cases x)
      show "case x of (name, obj) \<Rightarrow>
          map_of fs' (?dir @ [name]) = (if obj = [] then None else Some obj)"
        unfolding e prod.case by (rule obj_at) (use x e in simp)
    qed
    have f3: "\<forall>name. name \<notin> fst ` set ?objs \<and> name \<noteq> ''orphan.json'' \<longrightarrow>
           map_of fs' (?dir @ [name]) = map_of fs (?dir @ [name])"
    proof (intro allI impI)
      fix name
      assume "name \<notin> fst ` set ?objs \<and> name \<noteq> ''orphan.json''"
      then show "map_of fs' (?dir @ [name]) = map_of fs (?dir @ [name])"
        using other_at [of name] by (elim conjE)
    qed
    have f5: "\<forall>n1 \<in> fst ` set ?objs. \<forall>n2 \<in> fst ` set ?objs. n1 \<noteq> n2 \<longrightarrow>
           keys (read_obj fs' (?dir @ [n1])) \<inter> keys (read_obj fs' (?dir @ [n2])) = {}"
    proof (intro ballI impI)
      fix n1 n2
      assume "n1 \<in> fst ` set ?objs" "n2 \<in> fst ` set ?objs" "n1 \<noteq> n2"
      then show "keys (read_obj fs' (?dir @ [n1])) \<inter> keys (read_obj fs' (?dir @ [n2])) = {}"
        by (rule disj)
    qed
    show ?thesis
      by (rule conjI [OF f1 conjI [OF orphan_at conjI [OF f3 conjI [OF un f5]]]])
  qed
  have files_imp: "distinct (map fst ?objs) \<and> ''orphan.json'' \<notin> fst ` set ?objs \<longrightarrow>
        (\<forall>(name, obj) \<in> set ?objs.
           map_of fs' (?dir @ [name]) = (if obj = [] then None else Some obj)) \<and>
        map_of fs' (?dir @ [''orphan.json'']) =
          (if ?orphan = [] then None else Some ?orphan) \<and>
        (\<forall>name. name \<notin> fst ` set ?objs \<and> name \<noteq> ''orphan.json'' \<longrightarrow>
           map_of fs' (?dir @ [name]) = map_of fs (?dir @ [name])) \<and>
        (\<Union>name \<in> insert ''orphan.json'' (fst ` set ?objs).
            keys (read_obj fs' (?dir @ [name]))) - {''date''}
          = keys strs - {''date''} \<and>
        (\<forall>n1 \<in> fst ` set ?objs. \<forall>n2 \<in> fst ` set ?objs. n1 \<noteq> n2 \<longrightarrow>
           keys (read_obj fs' (?dir @ [n1])) \<inter> keys (read_obj fs' (?dir @ [n2])) = {})"
    by (rule impI, erule conjE, rule files)
  note all = conjI [OF sm conjI [OF l(1) conjI [OF l(2) conjI [OF refl conjI [OF refl
    conjI [OF names conjI [OF part conjI [OF dist files_imp]]]]]]]]
  show ?thesis
    by (rule exI [of _ sm], rule exI [of _ langs], rule exI [of _ strs],
        rule exI [of _ ?objs], rule exI [of _ ?orphan]) (rule all)
qed

theorem split_keys_partition_witness:
  "split_dump
     [(''1'', [(''en'', [(''date'', JStr ''0''), (''k1'', JStr ''a''), (''k2'', JStr ''b''), (''k3'', JStr ''c'')]),
               (''ja'', [(''k1'', JStr ''x'')])]),
      (''2'', [(''en'', []), (''ja'', [])]),
      (''3'', [(''en'', []), (''ja'', [])]),
      (''4'', [(''en'', []), (''ja'', [])])]
     [(''1'', [(''k1'', ''f.gml:10''), (''k2'', ''g.gml:20''), (''k4'', ''f.gml:3'')]),
      (''2'', []), (''3'', []), (''4'', [])]
     [] =
     Inr [([''.'', ''chapter1'', ''sourcemap.json''],
             [(''f.gml'', JObj [(''3'', JStr ''k4''), (''10'', JStr ''k1'')]),
              (''g.gml'', JObj [(''20'', JStr ''k2'')])]),
          ([''.'', ''chapter1'', ''en'', ''obj'', ''f.json''], [(''k1'', JStr ''a'')]),
          ([''.'', ''chapter1'', ''en'', ''obj'', ''g.json''], [(''k2'', JStr ''b'')]),
          ([''.'', ''chapter1'', ''en'', ''obj'', ''orphan.json''], [(''k3'', JStr ''c'')]),
          ([''.'', ''chapter1'', ''ja'', ''obj'', ''f.json''], [(''k1'', JStr ''x'')]),
          ([''.'', ''chapter2'', ''sourcemap.json''], []),
          ([''.'', ''chapter3'', ''sourcemap.json''], []),
          ([''.'', ''chapter4'', ''sourcemap.json''], [])]
   \<and> ''1'' \<in> set CHAPTERS \<and> ''en'' \<in> set LANGS
   \<and> distinct (map fst [(''k1'', ''f.gml:10''), (''k2'', ''g.gml:20''), (''k4'', ''f.gml:3'')])
   \<and> (\<exists>fs' strs.
        split_dump
          [(''1'', [(''en'', [(''date'', JStr ''0''), (''k1'', JStr ''a''), (''k2'', JStr ''b''), (''k3'', JStr ''c'')]),
                    (''ja'', [(''k1'', JStr ''x'')])]),
           (''2'', [(''en'', []), (''ja'', [])]),
           (''3'', [(''en'', []), (''ja'', [])]),
           (''4'', [(''en'', []), (''ja'', [])])]
          [(''1'', [(''k1'', ''f.gml:10''), (''k2'', ''g.gml:20''), (''k4'', ''f.gml:3'')]),
           (''2'', []), (''3'', []), (''4'', [])]
          [] = Inr fs' \<and>
        strs = [(''date'', JStr ''0''), (''k1'', JStr ''a''), (''k2'', JStr ''b''), (''k3'', JStr ''c'')] \<and>
        map_of fs' ([''.'', ''chapter1'', ''en'', ''obj''] @ [''f.json'']) = Some [(''k1'', JStr ''a'')] \<and>
        map_of fs' ([''.'', ''chapter1'', ''en'', ''obj''] @ [''g.json'']) = Some [(''k2'', JStr ''b'')] \<and>
        map_of fs' ([''.'', ''chapter1'', ''en'', ''obj''] @ [''orphan.json'']) = Some [(''k3'', JStr ''c'')] \<and>
        map_of fs' ([''.'', ''chapter1'', ''en'', ''obj''] @ [''old.json'']) = None \<and>
        (\<Union>name \<in> insert ''orphan.json'' (fst ` set [(''f.json'', [(''k1'', JStr ''a'')]), (''g.json'', [(''k2'', JStr ''b'')])]).
            keys (read_obj fs' ([''.'', ''chapter1'', ''en'', ''obj''] @ [name]))) - {''date''}
          = keys strs - {''date''} \<and>
        keys (read_obj fs' ([''.'', ''chapter1'', ''en'', ''obj''] @ [''f.json''])) \<inter>
        keys (read_obj fs' ([''.'', ''chapter1'', ''en'', ''obj''] @ [''g.json''])) = {})"
proof -
  let ?S = "[(''date'', JStr ''0''), (''k1'', JStr ''a''), (''k2'', JStr ''b''), (''k3'', JStr ''c'')]"
  let ?RL = "[(''1'', [(''en'', ?S), (''ja'', [(''k1'', JStr ''x'')])]),
      (''2'', [(''en'', []), (''ja'', [])]),
      (''3'', [(''en'', []), (''ja'', [])]),
      (''4'', [(''en'', []), (''ja'', [])])]"
  let ?E = "[(''k1'', ''f.gml:10''), (''k2'', ''g.gml:20''), (''k4'', ''f.gml:3'')]"
  let ?RS = "[(''1'', ?E), (''2'', []), (''3'', []), (''4'', [])]"
  let ?FS = "[([''.'', ''chapter1'', ''sourcemap.json''],
             [(''f.gml'', JObj [(''3'', JStr ''k4''), (''10'', JStr ''k1'')]),
              (''g.gml'', JObj [(''20'', JStr ''k2'')])]),
          ([''.'', ''chapter1'', ''en'', ''obj'', ''f.json''], [(''k1'', JStr ''a'')]),
          ([''.'', ''chapter1'', ''en'', ''obj'', ''g.json''], [(''k2'', JStr ''b'')]),
          ([''.'', ''chapter1'', ''en'', ''obj'', ''orphan.json''], [(''k3'', JStr ''c'')]),
          ([''.'', ''chapter1'', ''ja'', ''obj'', ''f.json''], [(''k1'', JStr ''x'')]),
          ([''.'', ''chapter2'', ''sourcemap.json''], []),
          ([''.'', ''chapter3'', ''sourcemap.json''], []),
          ([''.'', ''chapter4'', ''sourcemap.json''], [])]"
  let ?SM = "[(''f.gml'', [(''3'', ''k4''), (''10'', ''k1'')]), (''g.gml'', [(''20'', ''k2'')])]"
  let ?OBJS = "[(''f.json'', [(''k1'', JStr ''a'')]), (''g.json'', [(''k2'', JStr ''b'')])]"
  let ?D = "[''.'', ''chapter1'', ''en'', ''obj'']"
  have run: "split_dump ?RL ?RS [] = Inr ?FS"
    by (simp add: split_eval)
  have c: "''1'' \<in> set CHAPTERS" and l: "''en'' \<in> set LANGS"
    by (simp_all add: CHAPTERS_def LANGS_def)
  have m: "map_of ?RS ''1'' = Some ?E" by simp
  have d: "distinct (map fst ?E)" by simp
  have b: "build_sourcemap ?E = Inr ?SM" by (simp add: split_eval)
  have look: "lookup_string ?RL ''1'' ''en'' = map_of ?S"
    by (rule ext) (simp add: lookup_string_def)
  have objs: "objects (map_of ?S) ?SM [] = ?OBJS" by (simp add: split_eval)
  have dir: "ch_pwd ''1'' @ [''en'', ''obj''] = ?D" by (simp add: ch_pwd_def PWD_def)
  have ex: "\<exists>fs' strs. split_dump ?RL ?RS [] = Inr fs' \<and> strs = ?S \<and>
        map_of fs' (?D @ [''f.json'']) = Some [(''k1'', JStr ''a'')] \<and>
        map_of fs' (?D @ [''g.json'']) = Some [(''k2'', JStr ''b'')] \<and>
        map_of fs' (?D @ [''orphan.json'']) = Some [(''k3'', JStr ''c'')] \<and>
        map_of fs' (?D @ [''old.json'']) = None \<and>
        (\<Union>name \<in> insert ''orphan.json'' (fst ` set ?OBJS).
            keys (read_obj fs' (?D @ [name]))) - {''date''} = keys strs - {''date''} \<and>
        keys (read_obj fs' (?D @ [''f.json''])) \<inter> keys (read_obj fs' (?D @ [''g.json''])) = {}"
    using split_keys_partition [OF run c l m d]
  proof (elim exE conjE)
    fix sm langs strs objs lang_orphan
    assume sm: "build_sourcemap ?E = Inr sm"
      and l1: "map_of ?RL ''1'' = Some langs" and l2: "map_of langs ''en'' = Some strs"
      and ob: "objs = objects (lookup_string ?RL ''1'' ''en'') sm []"
      and lo: "lang_orphan = orphans (strings_used (lookup_string ?RL ''1'' ''en'') sm []) strs []"
      and imp: "distinct (map fst objs) \<and> ''orphan.json'' \<notin> fst ` set objs \<longrightarrow>
        (\<forall>(name, obj) \<in> set objs.
           map_of ?FS ((ch_pwd ''1'' @ [''en'', ''obj'']) @ [name]) =
             (if obj = [] then None else Some obj)) \<and>
        map_of ?FS ((ch_pwd ''1'' @ [''en'', ''obj'']) @ [''orphan.json'']) =
          (if lang_orphan = [] then None else Some lang_orphan) \<and>
        (\<forall>name. name \<notin> fst ` set objs \<and> name \<noteq> ''orphan.json'' \<longrightarrow>
           map_of ?FS ((ch_pwd ''1'' @ [''en'', ''obj'']) @ [name]) =
             map_of [] ((ch_pwd ''1'' @ [''en'', ''obj'']) @ [name])) \<and>
        (\<Union>name \<in> insert ''orphan.json'' (fst ` set objs).
            keys (read_obj ?FS ((ch_pwd ''1'' @ [''en'', ''obj'']) @ [name]))) - {''date''}
          = keys strs - {''date''} \<and>
        (\<forall>n1 \<in> fst ` set objs. \<forall>n2 \<in> fst ` set objs. n1 \<noteq> n2 \<longrightarrow>
           keys (read_obj ?FS ((ch_pwd ''1'' @ [''en'', ''obj'']) @ [n1])) \<inter>
           keys (read_obj ?FS ((ch_pwd ''1'' @ [''en'', ''obj'']) @ [n2])) = {})"
    have smv: "sm = ?SM" using sm b by simp
    have "langs = [(''en'', ?S), (''ja'', [(''k1'', JStr ''x'')])]" using l1 by simp
    then have strs: "strs = ?S" using l2 by simp
    have o: "objs = ?OBJS"
      unfolding ob look smv by (rule objs)
    have orph: "lang_orphan = [(''k3'', JStr ''c'')]"
      unfolding lo look smv strs by (simp add: split_eval)
    have pre: "distinct (map fst ?OBJS) \<and> ''orphan.json'' \<notin> fst ` set ?OBJS" by simp
    note facts = imp [unfolded o orph dir strs, rule_format, OF pre]
    have f: "map_of ?FS (?D @ [''f.json'']) = Some [(''k1'', JStr ''a'')]"
      using facts [THEN conjunct1, rule_format, of "(''f.json'', [(''k1'', JStr ''a'')])"] by simp
    have g: "map_of ?FS (?D @ [''g.json'']) = Some [(''k2'', JStr ''b'')]"
      using facts [THEN conjunct1, rule_format, of "(''g.json'', [(''k2'', JStr ''b'')])"] by simp
    have orphan: "map_of ?FS (?D @ [''orphan.json'']) = Some [(''k3'', JStr ''c'')]"
      using facts [THEN conjunct2, THEN conjunct1] by simp
    have old: "map_of ?FS (?D @ [''old.json'']) = None"
      using facts [THEN conjunct2, THEN conjunct2, THEN conjunct1, rule_format, of "''old.json''"]
      by simp
    have un: "(\<Union>name \<in> insert ''orphan.json'' (fst ` set ?OBJS).
              keys (read_obj ?FS (?D @ [name]))) - {''date''} = keys ?S - {''date''}"
      by (rule facts [THEN conjunct2, THEN conjunct2, THEN conjunct2, THEN conjunct1])
    have dj: "keys (read_obj ?FS (?D @ [''f.json''])) \<inter> keys (read_obj ?FS (?D @ [''g.json''])) = {}"
      using facts [THEN conjunct2, THEN conjunct2, THEN conjunct2, THEN conjunct2, rule_format,
        of "''f.json''" "''g.json''"] by simp
    show ?thesis
      by (rule exI [of _ ?FS], rule exI [of _ ?S])
         (rule conjI [OF run conjI [OF refl conjI [OF f conjI [OF g conjI [OF orphan
            conjI [OF old conjI [OF un dj]]]]]]])
  qed
  show ?thesis
    by (rule conjI [OF run conjI [OF c conjI [OF l conjI [OF d ex]]]])
qed

text \<open>
  The claim as it was stated fails when two source files have the same object file name:
  \<^verbatim>\<open>f.gml\<close> and \<^verbatim>\<open>f\<close> are both written to \<^verbatim>\<open>f.json\<close>, the second object replaces the
  first, and the key \<^verbatim>\<open>k1\<close> of the raw string map is in no emitted file.
\<close>

theorem split_keys_partition_counterexample:
  "split_dump
     [(''1'', [(''en'', [(''k1'', JStr ''a''), (''k2'', JStr ''b'')]), (''ja'', [])]),
      (''2'', [(''en'', []), (''ja'', [])]),
      (''3'', [(''en'', []), (''ja'', [])]),
      (''4'', [(''en'', []), (''ja'', [])])]
     [(''1'', [(''k1'', ''f.gml:1''), (''k2'', ''f:2'')]),
      (''2'', []), (''3'', []), (''4'', [])]
     [] =
     Inr [([''.'', ''chapter1'', ''sourcemap.json''],
             [(''f.gml'', JObj [(''1'', JStr ''k1'')]),
              (''f'', JObj [(''2'', JStr ''k2'')])]),
          ([''.'', ''chapter1'', ''en'', ''obj'', ''f.json''], [(''k2'', JStr ''b'')]),
          ([''.'', ''chapter2'', ''sourcemap.json''], []),
          ([''.'', ''chapter3'', ''sourcemap.json''], []),
          ([''.'', ''chapter4'', ''sourcemap.json''], [])]
   \<and> build_sourcemap [(''k1'', ''f.gml:1''), (''k2'', ''f:2'')] =
       Inr [(''f.gml'', [(''1'', ''k1'')]), (''f'', [(''2'', ''k2'')])]
   \<and> objects (map_of [(''k1'', JStr ''a''), (''k2'', JStr ''b'')])
        [(''f.gml'', [(''1'', ''k1'')]), (''f'', [(''2'', ''k2'')])] [] =
       [(''f.json'', [(''k1'', JStr ''a'')]), (''f.json'', [(''k2'', JStr ''b'')])]
   \<and> ''k1'' \<in> keys [(''k1'', JStr ''a''), (''k2'', JStr ''b'')] - {''date''}
   \<and> ''k1'' \<notin> keys [(''k2'', JStr ''b'')]"
  by (simp add: split_eval keys_def)

subsection \<open>Running the splitter again\<close>

lemma patch_idem: "patch w (patch w m) = patch w m"
  by (rule ext) (simp add: patch_def split: option.splits)

lemma patch_comp: "patch w2 (patch w1 m) = patch (w1 ++ w2) m"
  by (rule ext) (simp add: patch_def map_add_def split: option.splits)

lemma writes_id: "writes (\<lambda>fs. fs)"
  unfolding writes_def by (rule exI [of _ Map.empty]) (simp add: patch_def)

lemma writes_dict2file: "writes (dict2file d p)"
  unfolding writes_def
  by (rule exI [of _ "[p \<mapsto> Some d]"]) (auto simp add: dict2file_def patch_def update_conv')

lemma writes_rmfile: "writes (rmfile p)"
  unfolding writes_def
  by (rule exI [of _ "[p \<mapsto> None]"])
     (auto simp add: rmfile_def exists_def patch_def delete_conv' fun_eq_iff)

lemma writes_comp: "writes g \<Longrightarrow> writes h \<Longrightarrow> writes (\<lambda>fs. h (g fs))"
  unfolding writes_def by (metis patch_comp)

lemma writes_put_object: "writes (put_object obj_dir named)"
proof -
  obtain name obj where n: "named = (name, obj)" by (cases named)
  have "put_object obj_dir named =
      (if obj = [] then rmfile (obj_dir @ [name]) else dict2file obj (obj_dir @ [name]))"
    by (simp add: fun_eq_iff put_object_def n)
  then show ?thesis by (simp add: writes_dict2file writes_rmfile)
qed

lemma writes_fold: "(\<And>x. writes (g x)) \<Longrightarrow> writes (fold g xs)"
proof (induction xs)
  case Nil
  show ?case using writes_id by (simp add: id_def)
next
  case (Cons x xs)
  have "writes (\<lambda>fs. fold g xs (g x fs))"
    using writes_comp [OF Cons.prems [of x] Cons.IH [OF Cons.prems]] .
  then show ?case by (simp add: comp_def)
qed

lemma patches_Inl: "patches (\<lambda>fs. Inl e)"
  by (simp add: patches_def)

lemma patches_Inr: "writes g \<Longrightarrow> patches (\<lambda>fs. Inr (g fs))"
  unfolding patches_def writes_def by auto

lemma patches_after: "writes g \<Longrightarrow> patches F \<Longrightarrow> patches (\<lambda>fs. F (g fs))"
  unfolding patches_def writes_def by (metis patch_comp)

lemma patches_bind:
  assumes "patches F" and "patches G"
  shows "patches (\<lambda>fs. case F fs of Inl e \<Rightarrow> Inl e | Inr fs' \<Rightarrow> G fs')"
proof -
  consider (fail) e where "\<forall>fs. F fs = Inl e"
    | (ok) w where "\<forall>fs. \<exists>fs'. F fs = Inr fs' \<and> map_of fs' = patch w (map_of fs)"
    using assms(1) unfolding patches_def by blast
  then show ?thesis
  proof cases
    case fail
    then show ?thesis by (simp add: patches_def)
  next
    case ok
    consider (gfail) e where "\<forall>fs. G fs = Inl e"
      | (gok) w' where "\<forall>fs. \<exists>fs'. G fs = Inr fs' \<and> map_of fs' = patch w' (map_of fs)"
      using assms(2) unfolding patches_def by blast
    then show ?thesis
    proof cases
      case gfail
      have "\<forall>fs. (case F fs of Inl e \<Rightarrow> Inl e | Inr fs' \<Rightarrow> G fs') = Inl e"
      proof
        fix fs
        obtain fs' where "F fs = Inr fs'" using ok by blast
        then show "(case F fs of Inl e \<Rightarrow> Inl e | Inr fs' \<Rightarrow> G fs') = Inl e"
          using gfail by simp
      qed
      then show ?thesis unfolding patches_def by blast
    next
      case gok
      have "\<forall>fs. \<exists>fs''. (case F fs of Inl e \<Rightarrow> Inl e | Inr fs' \<Rightarrow> G fs') = Inr fs'' \<and>
          map_of fs'' = patch (w ++ w') (map_of fs)"
      proof
        fix fs
        obtain fs' where f: "F fs = Inr fs'" "map_of fs' = patch w (map_of fs)" using ok by blast
        obtain fs'' where g: "G fs' = Inr fs''" "map_of fs'' = patch w' (map_of fs')"
          using gok by blast
        show "\<exists>fs''. (case F fs of Inl e \<Rightarrow> Inl e | Inr fs' \<Rightarrow> G fs') = Inr fs'' \<and>
          map_of fs'' = patch (w ++ w') (map_of fs)"
          using f g by (simp add: patch_comp)
      qed
      then show ?thesis unfolding patches_def by blast
    qed
  qed
qed

lemma patches_foldM: "(\<And>x. patches (f x)) \<Longrightarrow> patches (foldM f xs)"
proof (induction xs)
  case Nil
  show ?case using patches_Inr [OF writes_id] by (simp add: fun_eq_iff [symmetric] cong: sum.case_cong)
next
  case (Cons x xs)
  have "patches (\<lambda>fs. case f x fs of Inl e \<Rightarrow> Inl e | Inr fs' \<Rightarrow> foldM f xs fs')"
    using patches_bind [OF Cons.prems [of x] Cons.IH [OF Cons.prems]] .
  then show ?case by (simp cong: sum.case_cong)
qed

lemma patches_split_lang: "patches (split_lang raw_lang chapter sm lang)"
proof -
  let ?look = "lookup_string raw_lang chapter lang"
  let ?dir = "ch_pwd chapter @ [lang, ''obj'']"
  let ?files = "fold (put_object ?dir) (objects ?look sm [])"
  have wf: "writes ?files" by (rule writes_fold) (rule writes_put_object)
  show ?thesis
  proof (cases "map_of raw_lang chapter")
    case None
    then have "split_lang raw_lang chapter sm lang = (\<lambda>fs. Inl KeyError)"
      by (simp add: split_lang_def fun_eq_iff split_files_objects)
    then show ?thesis by (simp add: patches_Inl)
  next
    case (Some langs)
    show ?thesis
    proof (cases "map_of langs lang")
      case None
      then have "split_lang raw_lang chapter sm lang = (\<lambda>fs. Inl KeyError)"
        using Some by (simp add: split_lang_def fun_eq_iff split_files_objects)
      then show ?thesis by (simp add: patches_Inl)
    next
      case (Some strs)
      let ?orphan = "orphans (strings_used ?look sm []) strs []"
      let ?last = "if ?orphan \<noteq> [] then dict2file ?orphan (?dir @ [''orphan.json''])
                   else rmfile (?dir @ [''orphan.json''])"
      have wl: "writes ?last" by (simp add: writes_dict2file writes_rmfile)
      have "split_lang raw_lang chapter sm lang = (\<lambda>fs. Inr (?last (?files fs)))"
        using Some \<open>map_of raw_lang chapter = Some langs\<close>
        by (simp add: split_lang_def fun_eq_iff split_files_objects)
      then show ?thesis using patches_Inr [OF writes_comp [OF wf wl]] by simp
    qed
  qed
qed

lemma patches_split_chapter: "patches (split_chapter raw_lang raw_sourcemap chapter)"
proof (cases "map_of raw_sourcemap chapter")
  case None
  then have "split_chapter raw_lang raw_sourcemap chapter = (\<lambda>fs. Inl KeyError)"
    by (simp add: split_chapter_def fun_eq_iff)
  then show ?thesis by (simp add: patches_Inl)
next
  case (Some entries)
  show ?thesis
  proof (cases "build_sourcemap entries")
    case (Inl e)
    then have "split_chapter raw_lang raw_sourcemap chapter = (\<lambda>fs. Inl e)"
      using Some by (simp add: split_chapter_def fun_eq_iff)
    then show ?thesis by (simp add: patches_Inl)
  next
    case (Inr sm)
    have "split_chapter raw_lang raw_sourcemap chapter =
        (\<lambda>fs. foldM (split_lang raw_lang chapter sm) LANGS
           (dict2file (sourcemap_json sm) (ch_pwd chapter @ [''sourcemap.json'']) fs))"
      using Some Inr by (simp add: split_chapter_def fun_eq_iff)
    then show ?thesis
      using patches_after [OF writes_dict2file patches_foldM [of "split_lang raw_lang chapter sm" LANGS]]
        patches_split_lang by simp
  qed
qed

lemma patches_split_dump: "patches (split_dump raw_lang raw_sourcemap)"
proof -
  have "split_dump raw_lang raw_sourcemap = foldM (split_chapter raw_lang raw_sourcemap) CHAPTERS"
    by (simp add: split_dump_def fun_eq_iff)
  then show ?thesis using patches_foldM [of "split_chapter raw_lang raw_sourcemap"] patches_split_chapter
    by simp
qed

lemma patches_again:
  assumes "patches F" and "F fs = Inr fs1"
  shows "\<exists>fs2. F fs1 = Inr fs2 \<and> map_of fs2 = map_of fs1"
    and "\<exists>fs2. F fs0 = Inr fs2 \<and>
      (\<forall>p. map_of fs2 p = map_of fs1 p \<or> map_of fs2 p = map_of fs0 p \<and> map_of fs1 p = map_of fs p)"
proof -
  from assms obtain w where
    w: "\<And>fs. \<exists>fs'. F fs = Inr fs' \<and> map_of fs' = patch w (map_of fs)"
    unfolding patches_def by (metis Inl_Inr_False)
  have m1: "map_of fs1 = patch w (map_of fs)" using w [of fs] assms(2) by auto
  obtain fs2 where f2: "F fs1 = Inr fs2" "map_of fs2 = patch w (map_of fs1)" using w [of fs1] by blast
  show "\<exists>fs2. F fs1 = Inr fs2 \<and> map_of fs2 = map_of fs1"
    using f2 m1 by (simp add: patch_idem)
  obtain fs3 where f3: "F fs0 = Inr fs3" "map_of fs3 = patch w (map_of fs0)" using w [of fs0] by blast
  have "\<forall>p. map_of fs3 p = map_of fs1 p \<or> map_of fs3 p = map_of fs0 p \<and> map_of fs1 p = map_of fs p"
    by (simp add: f3 m1 patch_def split: option.splits)
  then show "\<exists>fs2. F fs0 = Inr fs2 \<and>
      (\<forall>p. map_of fs2 p = map_of fs1 p \<or> map_of fs2 p = map_of fs0 p \<and> map_of fs1 p = map_of fs p)"
    using f3 by blast
qed

text \<open>
  C7. When a run of the splitter on given raw documents has ended, a second run on the
  same documents, started from the files the first one left, ends too and leaves every
  file as it was: the per-file objects, the orphan objects and the chapter source maps are
  the same, and nothing else has changed. The same holds from any other starting point:
  a run from other files ends, and every path either holds the same in both results or
  was left untouched by both runs.
\<close>

theorem split_dump_idempotent:
  assumes "split_dump raw_lang raw_sourcemap fs = Inr fs1"
  shows "(\<exists>fs2. split_dump raw_lang raw_sourcemap fs1 = Inr fs2 \<and> map_of fs2 = map_of fs1)
     \<and> (\<exists>fs2. split_dump raw_lang raw_sourcemap fs0 = Inr fs2 \<and>
          (\<forall>p. map_of fs2 p = map_of fs1 p \<or>
               map_of fs2 p = map_of fs0 p \<and> map_of fs1 p = map_of fs p))"
  using patches_again [OF patches_split_dump assms] by blast
theorem split_dump_idempotent_witness:
  "split_dump
     [(''1'', [(''en'', [(''k1'', JStr ''a''), (''k3'', JStr ''c'')]), (''ja'', [])]),
      (''2'', [(''en'', []), (''ja'', [])]),
      (''3'', [(''en'', []), (''ja'', [])]),
      (''4'', [(''en'', []), (''ja'', [])])]
     [(''1'', [(''k1'', ''f.gml:10'')]), (''2'', []), (''3'', []), (''4'', [])]
     [([''.'', ''chapter1'', ''ja'', ''obj'', ''f.json''], [(''k1'', JStr ''stale'')])] =
     Inr [([''.'', ''chapter1'', ''sourcemap.json''], [(''f.gml'', JObj [(''10'', JStr ''k1'')])]),
          ([''.'', ''chapter1'', ''en'', ''obj'', ''f.json''], [(''k1'', JStr ''a'')]),
          ([''.'', ''chapter1'', ''en'', ''obj'', ''orphan.json''], [(''k3'', JStr ''c'')]),
          ([''.'', ''chapter2'', ''sourcemap.json''], []),
          ([''.'', ''chapter3'', ''sourcemap.json''], []),
          ([''.'', ''chapter4'', ''sourcemap.json''], [])]
   \<and> (\<exists>fs2. split_dump
          [(''1'', [(''en'', [(''k1'', JStr ''a''), (''k3'', JStr ''c'')]), (''ja'', [])]),
           (''2'', [(''en'', []), (''ja'', [])]),
           (''3'', [(''en'', []), (''ja'', [])]),
           (''4'', [(''en'', []), (''ja'', [])])]
          [(''1'', [(''k1'', ''f.gml:10'')]), (''2'', []), (''3'', []), (''4'', [])]
          [([''.'', ''chapter1'', ''sourcemap.json''], [(''f.gml'', JObj [(''10'', JStr ''k1'')])]),
           ([''.'', ''chapter1'', ''en'', ''obj'', ''f.json''], [(''k1'', JStr ''a'')]),
           ([''.'', ''chapter1'', ''en'', ''obj'', ''orphan.json''], [(''k3'', JStr ''c'')]),
           ([''.'', ''chapter2'', ''sourcemap.json''], []),
           ([''.'', ''chapter3'', ''sourcemap.json''], []),
           ([''.'', ''chapter4'', ''sourcemap.json''], [])] = Inr fs2
        \<and> map_of fs2 =
            map_of [([''.'', ''chapter1'', ''sourcemap.json''], [(''f.gml'', JObj [(''10'', JStr ''k1'')])]),
                    ([''.'', ''chapter1'', ''en'', ''obj'', ''f.json''], [(''k1'', JStr ''a'')]),
                    ([''.'', ''chapter1'', ''en'', ''obj'', ''orphan.json''], [(''k3'', JStr ''c'')]),
                    ([''.'', ''chapter2'', ''sourcemap.json''], []),
                    ([''.'', ''chapter3'', ''sourcemap.json''], []),
                    ([''.'', ''chapter4'', ''sourcemap.json''], [])])"
proof -
  let ?RL = "[(''1'', [(''en'', [(''k1'', JStr ''a''), (''k3'', JStr ''c'')]), (''ja'', [])]),
      (''2'', [(''en'', []), (''ja'', [])]),
      (''3'', [(''en'', []), (''ja'', [])]),
      (''4'', [(''en'', []), (''ja'', [])])]"
  let ?RS = "[(''1'', [(''k1'', ''f.gml:10'')]), (''2'', []), (''3'', []), (''4'', [])]"
  let ?START = "[([''.'', ''chapter1'', ''ja'', ''obj'', ''f.json''], [(''k1'', JStr ''stale'')])]"
  let ?FS = "[([''.'', ''chapter1'', ''sourcemap.json''], [(''f.gml'', JObj [(''10'', JStr ''k1'')])]),
          ([''.'', ''chapter1'', ''en'', ''obj'', ''f.json''], [(''k1'', JStr ''a'')]),
          ([''.'', ''chapter1'', ''en'', ''obj'', ''orphan.json''], [(''k3'', JStr ''c'')]),
          ([''.'', ''chapter2'', ''sourcemap.json''], []),
          ([''.'', ''chapter3'', ''sourcemap.json''], []),
          ([''.'', ''chapter4'', ''sourcemap.json''], [])]"
  have run: "split_dump ?RL ?RS ?START = Inr ?FS"
    by (simp add: split_eval)
  from split_dump_idempotent [OF run, of "[]"]
  have "\<exists>fs2. split_dump ?RL ?RS ?FS = Inr fs2 \<and> map_of fs2 = map_of ?FS" by blast
  then show ?thesis using run by blast
qed

subsection \<open>The compiler's loop\<close>









text \<open>One file of the loop, when the base file is there.\<close>

lemma assemble_Cons:
  assumes "map_of fs (base @ [name]) = Some b"
  shows "assemble fs base new (name # rest) (c, doc) =
     assemble fs base new rest
       (fst (merge_keys (read_obj fs (new @ [name])) (map fst b) (c, b)),
        dict_merge doc (snd (merge_keys (read_obj fs (new @ [name])) (map fst b) (c, b))))"
proof -
  have "(case file2dict (new @ [name]) fs of Inl e \<Rightarrow> [] | Inr d \<Rightarrow> d) = read_obj fs (new @ [name])"
    by (simp add: file2dict_def read_obj_def split: option.splits)
  then show ?thesis using assms by (simp add: file2dict_def case_prod_beta Let_def)
qed


subsection \<open>Division by zero in the compiler\<close>







subsection \<open>A target file that is not there\<close>




subsection \<open>Merging a translation and reporting the progress\<close>

lemma update_as_map:
  "distinct (map fst b) \<Longrightarrow> k \<in> fst ` set b \<Longrightarrow>
   AList.update k s b = map (\<lambda>(k', v). (k', if k' = k then s else v)) b"
proof (induction b)
  case Nil
  then show ?case by simp
next
  case (Cons e b)
  obtain k' v where e: "e = (k', v)" by (cases e)
  show ?case
  proof (cases "k' = k")
    case True
    then have "k \<notin> fst ` set b" using Cons.prems(1) e by auto
    then have "map (\<lambda>(k', v). (k', if k' = k then s else v)) b = b"
      by (intro map_idI) (auto simp add: image_iff)
    then show ?thesis using True e by simp
  next
    case False
    then show ?thesis using Cons e by auto
  qed
qed

lemma merge_keys_map:
  "distinct ks \<Longrightarrow> set ks \<subseteq> fst ` set b \<Longrightarrow> distinct (map fst b) \<Longrightarrow>
   merge_keys t ks (c, b) =
     (c + int (length (filter (\<lambda>k. map_of t k \<noteq> None) ks)),
      map (\<lambda>(k, v). (k, if k \<in> set ks then (case map_of t k of None \<Rightarrow> v | Some s \<Rightarrow> s) else v)) b)"
proof (induction ks arbitrary: c b)
  case Nil
  show ?case by (simp add: case_prod_beta)
next
  case (Cons k ks)
  have d: "distinct ks" and kn: "k \<notin> set ks" and kb: "k \<in> fst ` set b"
    and sub: "set ks \<subseteq> fst ` set b"
    using Cons.prems by auto
  show ?case
  proof (cases "map_of t k")
    case None
    have "map (\<lambda>(k', v). (k', if k' \<in> set ks then (case map_of t k' of None \<Rightarrow> v | Some s \<Rightarrow> s) else v)) b =
        map (\<lambda>(k', v). (k', if k' \<in> set (k # ks) then (case map_of t k' of None \<Rightarrow> v | Some s \<Rightarrow> s) else v)) b"
      by (rule map_cong) (auto simp add: None)
    then show ?thesis using Cons.IH [OF d sub Cons.prems(3), of c] None by simp
  next
    case (Some s)
    let ?b = "map (\<lambda>(k', v). (k', if k' = k then s else v)) b"
    have u: "AList.update k s b = ?b" using update_as_map [OF Cons.prems(3) kb] .
    have keys: "map fst ?b = map fst b" by (simp add: case_prod_beta comp_def)
    have sub': "set ks \<subseteq> fst ` set ?b" using sub keys by (metis set_map)
    have d': "distinct (map fst ?b)" unfolding keys by (rule Cons.prems(3))
    have "map (\<lambda>(k', v). (k', if k' \<in> set ks then (case map_of t k' of None \<Rightarrow> v | Some s \<Rightarrow> s) else v)) ?b =
        map (\<lambda>(k', v). (k', if k' \<in> set (k # ks) then (case map_of t k' of None \<Rightarrow> v | Some s \<Rightarrow> s) else v)) b"
      using kn by (auto simp add: Some)
    then show ?thesis using Cons.IH [OF d sub' d', of "c + 1"] Some u by simp
  qed
qed

text \<open>
  The loop of lines 160 to 164 on a base object that is a dictionary: every key the target
  object has takes the target's value and adds one to the counter, every other key keeps
  its value.
\<close>

lemma merge_keys_merged:
  assumes "distinct (map fst baselang_obj)"
  shows "merge_keys newlang_obj (map fst baselang_obj) (c, baselang_obj) =
     (c + translated newlang_obj baselang_obj, merged newlang_obj baselang_obj)"
proof -
  have "map (\<lambda>(k, v). (k, if k \<in> set (map fst baselang_obj)
          then (case map_of newlang_obj k of None \<Rightarrow> v | Some s \<Rightarrow> s) else v)) baselang_obj =
      merged newlang_obj baselang_obj"
    unfolding merged_def by (rule map_cong) force+
  then show ?thesis
    using merge_keys_map [OF assms _ assms, of newlang_obj c] by (simp add: translated_def)
qed

text \<open>
  The whole loop of lines 154 to 165 over base objects that are dictionaries: the counter
  grows by the translated keys of each file, and the document takes each merged object in
  turn.
\<close>

lemma assemble_merged:
  assumes "\<forall>n \<in> set names. \<exists>b. map_of fs (base @ [n]) = Some b \<and> distinct (map fst b)"
  shows "assemble fs base new names (c, doc) =
     Inr (c + sum_list (map (\<lambda>n. translated (read_obj fs (new @ [n])) (read_obj fs (base @ [n]))) names),
          fold (\<lambda>n d. dict_merge d (merged (read_obj fs (new @ [n])) (read_obj fs (base @ [n]))))
            names doc)"
  using assms
proof (induction names arbitrary: c doc)
  case Nil
  show ?case by simp
next
  case (Cons n names)
  from Cons.prems obtain b where b: "map_of fs (base @ [n]) = Some b" and d: "distinct (map fst b)"
    by auto
  have rb: "read_obj fs (base @ [n]) = b" by (simp add: read_obj_def b)
  have rest: "\<forall>n \<in> set names. \<exists>b. map_of fs (base @ [n]) = Some b \<and> distinct (map fst b)"
    using Cons.prems by simp
  show ?case
    by (simp only: assemble_Cons [OF b] merge_keys_merged [OF d] fst_conv snd_conv
        Cons.IH [OF rest]) (simp add: algebra_simps rb)
qed

lemmas compile_eval =
  compile_lang_def new_lang_file_def ch_pwd_def PWD_def BASE_LANG_def iterdir_def file2dict_def
  dict_merge_def dict2file_def Let_def

lemma progress_1_2_bits:
  "bit_length 1 = 1" "bit_length 2 = 2" "bit_length 9007199254740992 = 54" "bit_length 450359962737049600 = 59"
  by (simp_all add: bit_length.simps)

lemma progress_1_2_div: "float_div 1 2 = (4503599627370496, - 53)"
  by (simp add: float_div_def round_double_def rne_div_def Let_def progress_1_2_bits)

lemma progress_1_2_mul: "float_mul (4503599627370496, - 53) 100 = (7036874417766400, - 47)"
  by (simp add: float_mul_def round_double_def rne_div_def Let_def progress_1_2_bits)

lemma progress_1_2: "l10n_progress 1 2 = Inr 50"
  by (simp add: l10n_progress_def progress_1_2_div progress_1_2_mul float_int_def)


lemma progress_29_50_bits:
  "bit_length 29 = 5" "bit_length 50 = 6" "bit_length 9007199254740992 = 54" "bit_length 522417556774977500 = 59"
  by (simp_all add: bit_length.simps)

lemma progress_29_50_div: "float_div 29 50 = (5224175567749775, - 53)"
  by (simp add: float_div_def round_double_def rne_div_def Let_def progress_29_50_bits)

lemma progress_29_50_mul: "float_mul (5224175567749775, - 53) 100 = (8162774324609023, - 47)"
  by (simp add: float_mul_def round_double_def rne_div_def Let_def progress_29_50_bits)

lemma progress_29_50: "l10n_progress 29 50 = Inr 57"
  by (simp add: l10n_progress_def progress_29_50_div progress_29_50_mul float_int_def)


text \<open>The example of the specification: one of two keys is translated, and 50 is reported.\<close>

lemma compile_example:
  "compile_lang ''1700000000000'' None ''vi'' ''1''
     [([''.'', ''chapter1'', ''en'', ''obj'', ''a.json''],
         [(''A'', JStr ''original''), (''B'', JStr ''original2'')]),
      ([''.'', ''chapter1'', ''vi'', ''obj'', ''a.json''], [(''A'', JStr ''translated'')])] =
   Inr ((1, 2, 50),
     [([''.'', ''chapter1'', ''en'', ''obj'', ''a.json''],
         [(''A'', JStr ''original''), (''B'', JStr ''original2'')]),
      ([''.'', ''chapter1'', ''vi'', ''obj'', ''a.json''], [(''A'', JStr ''translated'')]),
      ([''.'', ''chapter1'', ''lang_vi.json''],
         [(''date'', JStr ''1700000000000''), (''A'', JStr ''translated''),
          (''B'', JStr ''original2'')])])"
  by (simp add: compile_eval progress_1_2)

text \<open>
  C4. With 29 of the 50 keys of a base object translated, the run counts 29 translated keys
  out of 50 and reports 57 percent: the quotient 29 / 50 and its product with 100 are
  rounded to doubles, and the product is just below 58, which is the floor of
  29 / 50 * 100.
\<close>

theorem progress_rounding:
  "map_sum id fst
     (compile_lang ''1700000000000'' None ''vi'' ''1''
       [([''.'', ''chapter1'', ''en'', ''obj'', ''a.json''],
         [(''k00'', JStr ''s00''), (''k01'', JStr ''s01''), (''k02'', JStr ''s02''), (''k03'',
          JStr ''s03''), (''k04'', JStr ''s04''), (''k05'', JStr ''s05''), (''k06'', JStr
          ''s06''), (''k07'', JStr ''s07''), (''k08'', JStr ''s08''), (''k09'', JStr ''s09''),
          (''k10'', JStr ''s10''), (''k11'', JStr ''s11''), (''k12'', JStr ''s12''), (''k13'',
          JStr ''s13''), (''k14'', JStr ''s14''), (''k15'', JStr ''s15''), (''k16'', JStr
          ''s16''), (''k17'', JStr ''s17''), (''k18'', JStr ''s18''), (''k19'', JStr ''s19''),
          (''k20'', JStr ''s20''), (''k21'', JStr ''s21''), (''k22'', JStr ''s22''), (''k23'',
          JStr ''s23''), (''k24'', JStr ''s24''), (''k25'', JStr ''s25''), (''k26'', JStr
          ''s26''), (''k27'', JStr ''s27''), (''k28'', JStr ''s28''), (''k29'', JStr ''s29''),
          (''k30'', JStr ''s30''), (''k31'', JStr ''s31''), (''k32'', JStr ''s32''), (''k33'',
          JStr ''s33''), (''k34'', JStr ''s34''), (''k35'', JStr ''s35''), (''k36'', JStr
          ''s36''), (''k37'', JStr ''s37''), (''k38'', JStr ''s38''), (''k39'', JStr ''s39''),
          (''k40'', JStr ''s40''), (''k41'', JStr ''s41''), (''k42'', JStr ''s42''), (''k43'',
          JStr ''s43''), (''k44'', JStr ''s44''), (''k45'', JStr ''s45''), (''k46'', JStr
          ''s46''), (''k47'', JStr ''s47''), (''k48'', JStr ''s48''), (''k49'', JStr ''s49'')]),
        ([''.'', ''chapter1'', ''vi'', ''obj'', ''a.json''],
         [(''k00'', JStr ''t00''), (''k01'', JStr ''t01''), (''k02'', JStr ''t02''), (''k03'',
          JStr ''t03''), (''k04'', JStr ''t04''), (''k05'', JStr ''t05''), (''k06'', JStr
          ''t06''), (''k07'', JStr ''t07''), (''k08'', JStr ''t08''), (''k09'', JStr ''t09''),
          (''k10'', JStr ''t10''), (''k11'', JStr ''t11''), (''k12'', JStr ''t12''), (''k13'',
          JStr ''t13''), (''k14'', JStr ''t14''), (''k15'', JStr ''t15''), (''k16'', JStr
          ''t16''), (''k17'', JStr ''t17''), (''k18'', JStr ''t18''), (''k19'', JStr ''t19''),
          (''k20'', JStr ''t20''), (''k21'', JStr ''t21''), (''k22'', JStr ''t22''), (''k23'',
          JStr ''t23''), (''k24'', JStr ''t24''), (''k25'', JStr ''t25''), (''k26'', JStr
          ''t26''), (''k27'', JStr ''t27''), (''k28'', JStr ''t28'')])]) =
   Inr (29, 50, 57)
   \<and> (29 * 100) div 50 = (58 :: int)"
  by (simp add: compile_eval progress_29_50)

subsection \<open>The initializer\<close>











end
